theory Spec2Isabelle
  imports Main "HOL-Library.Word"
begin

unbundle bit_operations_syntax

section \<open>IP address formatting of the STM32L562E-DK virtual I/O driver\<close>

text \<open>
  This theory embeds the two address formatters of
  \<^verbatim>\<open>Drivers/Platform/vio_STM32L562E-DK.c\<close>, \<^verbatim>\<open>ip4_2a\<close> and \<^verbatim>\<open>ip6_2a\<close>.
  Both take a pointer to the address bytes, a pointer to a character buffer and the
  capacity the caller announces for it, and return nothing: their only effect is on
  the buffer.

  \<^item> The address and the output buffer are lists of bytes and of characters; a C
    pointer to their first element is the list itself.
  \<^item> An access outside an array is undefined behaviour in C. The model makes it a
    value: every read and write is checked against the length of the list and the
    function stops with a \<open>fault\<close> at the first access outside.
  \<^item> The functions return \<^verbatim>\<open>void\<close>; the model returns the buffer as it is
    left (\<open>Inr\<close>), or the fault (\<open>Inl\<close>).
  \<^item> The loop counters \<^verbatim>\<open>i, j, nmax, idx\<close> are \<^verbatim>\<open>int32_t\<close> in the
    source. They stay between 0 and 40, \<^verbatim>\<open>j - i\<close> is only computed with
    \<^verbatim>\<open>i <= j\<close> and \<^verbatim>\<open>j - 1\<close> only after \<^verbatim>\<open>j++\<close>, so they are
    natural numbers here.
\<close>

subsection \<open>Memory\<close>

type_synonym u8 = "8 word"
type_synonym u16 = "16 word"
type_synonym u32 = "32 word"
type_synonym cbuf = "char list"

datatype fault = Read_Past_End | Write_Past_End

abbreviation NUL :: char where
  "NUL \<equiv> CHR 0x00"

text \<open>\<^verbatim>\<open>a[i]\<close> as an rvalue.\<close>

definition peek :: "'a list \<Rightarrow> nat \<Rightarrow> fault + 'a" where
  "peek a i = (if i < length a then Inr (a ! i) else Inl Read_Past_End)"

text \<open>\<^verbatim>\<open>buf[i] = c\<close>.\<close>

definition poke :: "cbuf \<Rightarrow> nat \<Rightarrow> char \<Rightarrow> fault + cbuf" where
  "poke b i c = (if i < length b then Inr (b[i := c]) else Inl Write_Past_End)"

subsection \<open>The C library's \<^verbatim>\<open>sprintf\<close>\<close>

text \<open>
  \<^verbatim>\<open>sprintf\<close> belongs to the C library, not to the repository. It is modelled
  after the C standard for the three format strings the driver uses:
  \<^verbatim>\<open>%x\<close> prints an unsigned value in base 16 with the digits
  \<^verbatim>\<open>0123456789abcdef\<close>, \<^verbatim>\<open>%d\<close> prints in base 10, both with as many digits
  as the value needs and at least one; the characters are stored from the given
  position on, followed by a terminating null character; the value returned is the
  number of characters stored, the null character not counted. The values the driver
  converts are bytes and 16-bit values, promoted to \<^verbatim>\<open>int\<close> and never negative,
  so a conversion is a function of a natural number.
\<close>

definition digit_char :: "nat \<Rightarrow> char" where
  "digit_char d = ''0123456789abcdef'' ! d"

function hex_str :: "nat \<Rightarrow> string" where
  "hex_str n = (if n < 16 then [digit_char n]
                else hex_str (n div 16) @ [digit_char (n mod 16)])"
  by pat_completeness auto
termination
  by (relation "measure id") auto

function dec_str :: "nat \<Rightarrow> string" where
  "dec_str n = (if n < 10 then [digit_char n]
                else dec_str (n div 10) @ [digit_char (n mod 10)])"
  by pat_completeness auto
termination
  by (relation "measure id") auto

declare hex_str.simps [simp del]
declare dec_str.simps [simp del]

text \<open>\<^verbatim>\<open>sprintf(&buf[j], ...)\<close> where the conversion produces the text \<open>s\<close>.\<close>

definition sprintf_at :: "cbuf \<Rightarrow> nat \<Rightarrow> string \<Rightarrow> fault + (cbuf \<times> nat)" where
  "sprintf_at b j s =
     (if j + length s < length b
      then Inr (take j b @ s @ NUL # drop (j + length s + 1) b, length s)
      else Inl Write_Past_End)"

text \<open>What a reader of the C string in the buffer sees: the characters before the
  first null character (\<^verbatim>\<open>displayString\<close> reads \<^verbatim>\<open>ip_ascii\<close> this way).\<close>

definition c_str :: "cbuf \<Rightarrow> string" where
  "c_str b = takeWhile (\<lambda>c. c \<noteq> NUL) b"

subsection \<open>\<^verbatim>\<open>ip4_2a\<close>\<close>

text \<open>
  \<^verbatim>\<open>
  static void ip4_2a (const uint8_t *ip4_addr, char *buf, uint32_t buf_len) {
    if (buf_len < 16U) {
      return;
    }
    sprintf(buf, "%d.%d.%d.%d", ip4_addr[0], ip4_addr[1], ip4_addr[2], ip4_addr[3]);
  }
  \<close>
  The four bytes are read (as arguments of the call) before \<^verbatim>\<open>sprintf\<close> writes.
\<close>

definition ip4_2a :: "u8 list \<Rightarrow> cbuf \<Rightarrow> u32 \<Rightarrow> fault + cbuf" where
  "ip4_2a ip4_addr buf buf_len =
     (if buf_len < 16 then Inr buf
      else
        case peek ip4_addr 0 of Inl e \<Rightarrow> Inl e | Inr a0 \<Rightarrow>
       (case peek ip4_addr 1 of Inl e \<Rightarrow> Inl e | Inr a1 \<Rightarrow>
       (case peek ip4_addr 2 of Inl e \<Rightarrow> Inl e | Inr a2 \<Rightarrow>
       (case peek ip4_addr 3 of Inl e \<Rightarrow> Inl e | Inr a3 \<Rightarrow>
       (case sprintf_at buf 0
               (dec_str (unat a0) @ ''.'' @ dec_str (unat a1) @ ''.'' @
                dec_str (unat a2) @ ''.'' @ dec_str (unat a3))
        of Inl e \<Rightarrow> Inl e | Inr (buf', n) \<Rightarrow> Inr buf')))))"

subsection \<open>\<^verbatim>\<open>ip6_2a\<close>\<close>

text \<open>
  Reading the address in hextets:
  \<^verbatim>\<open>
  for (i = 0; i < 16; i += 2) {
    v16[i >> 1] = (uint16_t)(ip6_addr[i] << 8) | ip6_addr[i+1];
  }
  \<close>
  \<^verbatim>\<open>v16\<close> is an uninitialised local array of 8 values; every element is stored
  before it is read, and the model starts it at 0.
\<close>

function read_hextets :: "u8 list \<Rightarrow> nat \<Rightarrow> u16 list \<Rightarrow> fault + u16 list" where
  "read_hextets ip6_addr i v16 =
     (if i < 16 then
        case peek ip6_addr i of Inl e \<Rightarrow> Inl e | Inr hi \<Rightarrow>
       (case peek ip6_addr (i + 1) of Inl e \<Rightarrow> Inl e | Inr lo \<Rightarrow>
          read_hextets ip6_addr (i + 2)
            (v16[i div 2 := push_bit 8 (ucast hi) OR ucast lo]))
      else Inr v16)"
  by pat_completeness auto
termination
  by (relation "measure (\<lambda>(a, i, v). 16 - i)") auto

declare read_hextets.simps [simp del]

text \<open>
  The inner loop of the search, from \<^verbatim>\<open>j = i\<close>; the result is the value of
  \<^verbatim>\<open>j\<close> when the loop is left:
  \<^verbatim>\<open>
  for (j = i; j < 8-1; j++) {
    if (v16[j+1] != 0U) {
      break;
    }
  }
  \<close>
\<close>

function zero_block_end :: "u16 list \<Rightarrow> nat \<Rightarrow> nat" where
  "zero_block_end v16 j =
     (if j < 8 - 1 then (if v16 ! (j + 1) \<noteq> 0 then j else zero_block_end v16 (j + 1))
      else j)"
  by pat_completeness auto
termination
  by (relation "measure (\<lambda>(v, j). 7 - j)") auto

declare zero_block_end.simps [simp del]

text \<open>
  The search for the largest block of consecutive zero hextets; the result is the
  pair \<^verbatim>\<open>(nmax, idx)\<close> when the loop is left:
  \<^verbatim>\<open>
  idx = 8;
  for (i = nmax = 0; i < 8-1; i++) {
    if (v16[i] != 0U) {
      continue;
    }
    for (j = i; j < 8-1; j++) { ... }
    if (i == j) {
      continue;
    }
    if ((j - i) >= nmax) {
      /* Remember position and count */
      nmax = j - i + 1;
      idx  = i;
    }
    /* Skip already processed zero hextets */
    i = j;
  }
  \<close>
\<close>

function find_zero_block :: "u16 list \<Rightarrow> nat \<Rightarrow> nat \<Rightarrow> nat \<Rightarrow> nat \<times> nat" where
  "find_zero_block v16 i nmax idx =
     (if i < 8 - 1 then
        if v16 ! i \<noteq> 0 then find_zero_block v16 (i + 1) nmax idx
        else
          let j = zero_block_end v16 i in
          if i = j then find_zero_block v16 (i + 1) nmax idx
          else if j - i \<ge> nmax then find_zero_block v16 (j + 1) (j - i + 1) i
          else find_zero_block v16 (j + 1) nmax idx
      else (nmax, idx))"
  by pat_completeness auto
termination
proof (relation "measure (\<lambda>(v, i, n, x). 7 - i)")
  have ge: "j \<le> zero_block_end v j" for v j
  proof (induction v j rule: zero_block_end.induct)
    case (1 v16 j)
    show ?case
    proof (cases "j < 8 - 1 \<and> v16 ! (j + 1) = 0")
      case True
      with 1 have "j + 1 \<le> zero_block_end v16 (j + 1)" by simp
      moreover from True have "zero_block_end v16 j = zero_block_end v16 (j + 1)"
        by (subst zero_block_end.simps) simp
      ultimately show ?thesis by simp
    next
      case False
      then have "zero_block_end v16 j = j"
        by (subst zero_block_end.simps) auto
      then show ?thesis by simp
    qed
  qed
  show "wf (measure (\<lambda>(v :: u16 list, i :: nat, n :: nat, x :: nat). 7 - i))" by simp
  fix v16 :: "u16 list" and i nmax idx :: nat
  assume "i < 8 - 1"
  then show "((v16, i + 1, nmax, idx), (v16, i, nmax, idx))
               \<in> measure (\<lambda>(v, i, n, x). 7 - i)" by simp
  then show "((v16, i + 1, nmax, idx), (v16, i, nmax, idx))
               \<in> measure (\<lambda>(v, i, n, x). 7 - i)" .
  fix j :: nat
  assume "j = zero_block_end v16 i"
  with ge [of i v16] have "i \<le> j" by simp
  with \<open>i < 8 - 1\<close> show "((v16, j + 1, j - i + 1, i), (v16, i, nmax, idx))
               \<in> measure (\<lambda>(v, i, n, x). 7 - i)" by simp
  from \<open>i \<le> j\<close> \<open>i < 8 - 1\<close> show "((v16, j + 1, nmax, idx), (v16, i, nmax, idx))
               \<in> measure (\<lambda>(v, i, n, x). 7 - i)" by simp
qed

declare find_zero_block.simps [simp del]

text \<open>
  The hextets before the block, from \<^verbatim>\<open>i = j = 0\<close>; the result is the buffer
  and the values of \<^verbatim>\<open>i\<close> and \<^verbatim>\<open>j\<close> when the loop is left:
  \<^verbatim>\<open>
  for (i = j = 0; i < idx;  ) {
    j += sprintf(&buf[j], "%x", v16[i]);
    if (++i == idx) {
      break;
    }
    buf[j++] = ':';
  }
  \<close>
\<close>

function emit_head :: "u16 list \<Rightarrow> nat \<Rightarrow> cbuf \<Rightarrow> nat \<Rightarrow> nat \<Rightarrow> fault + (cbuf \<times> nat \<times> nat)" where
  "emit_head v16 idx buf i j =
     (if i < idx then
        case sprintf_at buf j (hex_str (unat (v16 ! i))) of Inl e \<Rightarrow> Inl e
        | Inr (buf1, n) \<Rightarrow>
            if i + 1 = idx then Inr (buf1, i + 1, j + n)
            else
              (case poke buf1 (j + n) CHR '':'' of Inl e \<Rightarrow> Inl e
               | Inr buf2 \<Rightarrow> emit_head v16 idx buf2 (i + 1) (j + n + 1))
      else Inr (buf, i, j))"
  by pat_completeness auto
termination
  by (relation "measure (\<lambda>(v, idx, b, i, j). idx - i)") auto

declare emit_head.simps [simp del]

text \<open>
  The hextets after the block; the result is the buffer and the value of
  \<^verbatim>\<open>j\<close> when the loop is left:
  \<^verbatim>\<open>
  for (i += nmax; i < 8; i++) {
    j += sprintf(&buf[j], ":%x", v16[i]);
  }
  \<close>
\<close>

function emit_tail :: "u16 list \<Rightarrow> cbuf \<Rightarrow> nat \<Rightarrow> nat \<Rightarrow> fault + (cbuf \<times> nat)" where
  "emit_tail v16 buf i j =
     (if i < 8 then
        case sprintf_at buf j ('':'' @ hex_str (unat (v16 ! i))) of Inl e \<Rightarrow> Inl e
        | Inr (buf1, n) \<Rightarrow> emit_tail v16 buf1 (i + 1) (j + n)
      else Inr (buf, j))"
  by pat_completeness auto
termination
  by (relation "measure (\<lambda>(v, b, i, j). 8 - i)") auto

declare emit_tail.simps [simp del]

text \<open>
  The part of the function after the first loop has filled \<^verbatim>\<open>v16\<close>:
  \<^verbatim>\<open>
  if (i < 8) {
    /* Right-end not yet complete */
    buf[j++] = ':';
    for (i += nmax; i < 8; i++) { ... }
    if (buf[j-1] == ':') {
      buf[j++] = ':';
    }
  }
  /* Make string null-terminated */
  buf[j] = 0;
  \<close>
\<close>

definition emit_rest :: "u16 list \<Rightarrow> nat \<Rightarrow> cbuf \<Rightarrow> nat \<Rightarrow> nat \<Rightarrow> fault + cbuf" where
  "emit_rest v16 nmax buf i j =
     (if i < 8 then
        case poke buf j CHR '':'' of Inl e \<Rightarrow> Inl e | Inr buf1 \<Rightarrow>
       (case emit_tail v16 buf1 (i + nmax) (j + 1) of Inl e \<Rightarrow> Inl e | Inr (buf2, j2) \<Rightarrow>
       (case peek buf2 (j2 - 1) of Inl e \<Rightarrow> Inl e | Inr c \<Rightarrow>
          if c = CHR '':'' then
            (case poke buf2 j2 CHR '':'' of Inl e \<Rightarrow> Inl e
             | Inr buf3 \<Rightarrow> poke buf3 (j2 + 1) NUL)
          else poke buf2 j2 NUL))
      else poke buf j NUL)"

definition ip6_2a :: "u8 list \<Rightarrow> cbuf \<Rightarrow> u32 \<Rightarrow> fault + cbuf" where
  "ip6_2a ip6_addr buf buf_len =
     (if buf_len < 40 then Inr buf
      else
        case read_hextets ip6_addr 0 [0, 0, 0, 0, 0, 0, 0, 0] of Inl e \<Rightarrow> Inl e
        | Inr v16 \<Rightarrow>
            (let (nmax, idx) = find_zero_block v16 0 0 8 in
             (case emit_head v16 idx buf 0 0 of Inl e \<Rightarrow> Inl e
              | Inr (buf1, i, j) \<Rightarrow> emit_rest v16 nmax buf1 i j)))"

section \<open>The vocabulary of the specification\<close>

text \<open>
  The definitions of this section are not translations of code. They say in HOL what
  the specification says in words; the theorems below compare the functions above
  with them.
\<close>

subsection \<open>Hextets and zero runs\<close>

text \<open>The eight 16-bit values obtained by pairing the bytes big-endian, for an
  address of 16 bytes or more.\<close>

definition hextets :: "u8 list \<Rightarrow> u16 list" where
  "hextets a = map (\<lambda>k. push_bit 8 (ucast (a ! (2 * k))) OR ucast (a ! (2 * k + 1))) [0..<8]"

text \<open>
  A zero run: \<open>n\<close> hextets from index \<open>s\<close> on, all of value 0, that cannot be
  extended to the left or to the right (a contiguous maximal span).
\<close>

definition zero_run :: "u16 list \<Rightarrow> nat \<Rightarrow> nat \<Rightarrow> bool" where
  "zero_run v s n \<longleftrightarrow>
     0 < n \<and> s + n \<le> length v \<and> (\<forall>k \<in> set [s..<s + n]. v ! k = 0) \<and>
     (s = 0 \<or> v ! (s - 1) \<noteq> 0) \<and> (s + n = length v \<or> v ! (s + n) \<noteq> 0)"

text \<open>
  The run the specification selects for compression: a zero run of length at least 2
  such that every zero run is shorter, or as long and not earlier.
\<close>

definition selected_run :: "u16 list \<Rightarrow> nat \<Rightarrow> nat \<Rightarrow> bool" where
  "selected_run v s n \<longleftrightarrow>
     zero_run v s n \<and> 2 \<le> n \<and>
     (\<forall>s' \<in> set [0..<length v]. \<forall>n' \<in> set [0..<Suc (length v)].
        zero_run v s' n' \<longrightarrow> n' < n \<or> (n' = n \<and> s \<le> s'))"

text \<open>No zero run of length 2 or more.\<close>

definition no_zero_run :: "u16 list \<Rightarrow> bool" where
  "no_zero_run v \<longleftrightarrow>
     (\<forall>s \<in> set [0..<length v]. \<forall>n \<in> set [0..<Suc (length v)]. zero_run v s n \<longrightarrow> n < 2)"

subsection \<open>Texts\<close>

abbreviation hex16 :: "u16 \<Rightarrow> string" where
  "hex16 w \<equiv> hex_str (unat w)"

text \<open>Strings joined by single colons.\<close>

fun join_colon :: "string list \<Rightarrow> string" where
  "join_colon [] = []"
| "join_colon [x] = x"
| "join_colon (x # y # ys) = x @ '':'' @ join_colon (y # ys)"

text \<open>
  The text with the \<open>n\<close> hextets from index \<open>s\<close> on replaced by a double colon:
  the hextets before, joined by colons, the double colon, the hextets after, joined by
  colons.
\<close>

definition compressed :: "u16 list \<Rightarrow> nat \<Rightarrow> nat \<Rightarrow> string" where
  "compressed v s n =
     join_colon (map hex16 (take s v)) @ ''::'' @ join_colon (map hex16 (drop (s + n) v))"

text \<open>The text ends with two colons and not with three.\<close>

definition ends_with_two_colons :: "string \<Rightarrow> bool" where
  "ends_with_two_colons t \<longleftrightarrow> take 2 (rev t) = ''::'' \<and> take 3 (rev t) \<noteq> '':::''"

text \<open>The text \<open>t\<close> has the string \<open>p\<close> somewhere inside.\<close>

fun has_infix :: "string \<Rightarrow> string \<Rightarrow> bool" where
  "has_infix p [] = (p = [])"
| "has_infix p (c # cs) = (take (length p) (c # cs) = p \<or> has_infix p cs)"

text \<open>The number of positions of a text at which two colons follow each other. A
  text with three colons in a row has two such positions.\<close>

fun count_dcolon :: "string \<Rightarrow> nat" where
  "count_dcolon (c # d # cs) =
     (if c = CHR '':'' \<and> d = CHR '':'' then 1 else 0) + count_dcolon (d # cs)"
| "count_dcolon cs = 0"

text \<open>The value of a digit, and of a string of digits read in a base.\<close>

definition digit_val :: "char \<Rightarrow> nat" where
  "digit_val c = length (takeWhile (\<lambda>d. d \<noteq> c) ''0123456789abcdef'')"

definition digits_val :: "nat \<Rightarrow> string \<Rightarrow> nat" where
  "digits_val base s = foldl (\<lambda>acc c. base * acc + digit_val c) 0 s"

subsection \<open>Buffers\<close>

text \<open>The buffer \<open>b\<close> after the C string \<open>t\<close> has been stored at its start: the
  characters of \<open>t\<close>, the terminating null character, and the rest of \<open>b\<close> as it
  was.\<close>

definition stored :: "cbuf \<Rightarrow> string \<Rightarrow> cbuf" where
  "stored b t = t @ NUL # drop (Suc (length t)) b"

section \<open>Notions for the proofs\<close>

text \<open>
  The invariants of the loops, and the texts the two functions leave in the buffer as
  functions of the address.
\<close>

text \<open>
  The invariant of the output loops: starting from the buffer \<open>b0\<close>, the text
  \<open>t\<close> has been written and the write position is \<open>length t\<close>. The character at
  the write position may have been overwritten (by the null character of an earlier
  \<^verbatim>\<open>sprintf\<close>); those after it are as in \<open>b0\<close>.
\<close>

definition wrote :: "cbuf \<Rightarrow> string \<Rightarrow> cbuf \<Rightarrow> bool" where
  "wrote b0 t b \<longleftrightarrow>
     length b = length b0 \<and> length t \<le> length b0 \<and> take (length t) b = t \<and>
     drop (Suc (length t)) b = drop (Suc (length t)) b0"

text \<open>
  The invariant of the search, at the head of the outer loop: \<open>(nmax, idx)\<close> is the
  first longest among the zero runs of length at least 2 that start before \<open>i\<close>, or
  \<open>(0, 8)\<close> when there is none; and \<open>i\<close> is not inside a zero run.
\<close>

definition best_upto :: "u16 list \<Rightarrow> nat \<Rightarrow> nat \<Rightarrow> nat \<Rightarrow> bool" where
  "best_upto v i nmax idx \<longleftrightarrow>
     (\<forall>s n. zero_run v s n \<and> 2 \<le> n \<and> s < i \<longrightarrow> n < nmax \<or> (n = nmax \<and> idx \<le> s)) \<and>
     (nmax = 0 \<and> idx = 8 \<or> 2 \<le> nmax \<and> idx < i \<and> zero_run v idx nmax)"

definition at_boundary :: "u16 list \<Rightarrow> nat \<Rightarrow> bool" where
  "at_boundary v i \<longleftrightarrow> i = 0 \<or> 7 \<le> i \<or> v ! (i - 1) \<noteq> 0 \<or> v ! i \<noteq> 0"

text \<open>
  The text \<^verbatim>\<open>ip6_2a\<close> leaves in the buffer, as a function of the hextets: the
  result of the search decides between the compressed and the plain form.
\<close>

definition ip6_text :: "u16 list \<Rightarrow> string" where
  "ip6_text v =
     (case find_zero_block v 0 0 8 of (nmax, idx) \<Rightarrow>
        if idx < 8 then compressed v idx nmax else join_colon (map hex16 v))"

text \<open>
  The text \<^verbatim>\<open>ip4_2a\<close> leaves in the buffer, as a function of the address bytes.
\<close>

definition ip4_text :: "u8 list \<Rightarrow> string" where
  "ip4_text a = dec_str (unat (a ! 0)) @ ''.'' @ dec_str (unat (a ! 1)) @ ''.'' @
                dec_str (unat (a ! 2)) @ ''.'' @ dec_str (unat (a ! 3))"

section \<open>Properties of the model\<close>

subsection \<open>The conversions of \<^verbatim>\<open>sprintf\<close>\<close>

text \<open>
  The digits a conversion produces, how many there are for a value of 16 or of 8 bits,
  and that they denote the value converted, without a leading zero.
\<close>

lemma digit_char_mem: "d < 16 \<Longrightarrow> digit_char d \<in> set ''0123456789abcdef''"
  unfolding digit_char_def by (rule nth_mem) simp

lemma hex_str_chars: "set (hex_str n) \<subseteq> set ''0123456789abcdef''"
proof (induction n rule: hex_str.induct)
  case (1 n)
  show ?case
  proof (cases "n < 16")
    case True
    then show ?thesis using digit_char_mem [of n]
      by (subst hex_str.simps) simp
  next
    case False
    have "n mod 16 < 16" by simp
    with False 1 digit_char_mem [of "n mod 16"] show ?thesis
      by (subst hex_str.simps) simp
  qed
qed

lemma hex_str_nonempty: "hex_str n \<noteq> []"
  by (subst hex_str.simps) simp

lemma hex_str_no_colon: "CHR '':'' \<notin> set (hex_str n)"
  using hex_str_chars [of n] by auto

lemma hex_str_length: "0 < k \<Longrightarrow> n < 16 ^ k \<Longrightarrow> length (hex_str n) \<le> k"
proof (induction n arbitrary: k rule: hex_str.induct)
  case (1 n)
  show ?case
  proof (cases "n < 16")
    case True
    then show ?thesis using 1(2) by (subst hex_str.simps) simp
  next
    case False
    then obtain k' where k: "k = Suc k'" using 1(2) by (cases k) auto
    with False 1(3) have "0 < k'" by (cases k') auto
    moreover from 1(3) k have "n div 16 < 16 ^ k'"
      by (simp add: less_mult_imp_div_less mult.commute)
    ultimately have "length (hex_str (n div 16)) \<le> k'"
      using 1(1) False by simp
    with False k show ?thesis by (subst hex_str.simps) simp
  qed
qed

lemma hex_str_u16_length: "length (hex_str (unat (w :: u16))) \<le> 4"
proof -
  have "unat w < 2 ^ 16" using unsigned_less [of w] by simp
  then have "unat w < 16 ^ 4" by simp
  then show ?thesis by (intro hex_str_length) simp_all
qed

lemma digit_val_digit_char:
  assumes "d < 16"
  shows "digit_val (digit_char d) = d"
proof -
  let ?ds = "''0123456789abcdef''"
  have dist: "distinct ?ds" by simp
  have len: "length ?ds = 16" by simp
  have "takeWhile (\<lambda>c. c \<noteq> ?ds ! d) ?ds = take d ?ds"
  proof (rule takeWhile_eq_take_P_nth)
    fix i assume "i < d" "i < length ?ds"
    with assms dist len show "?ds ! i \<noteq> ?ds ! d"
      by (metis nth_eq_iff_index_eq less_irrefl_nat)
  next
    show "\<not> ?ds ! d \<noteq> ?ds ! d" by simp
  qed
  then have "length (takeWhile (\<lambda>c. c \<noteq> ?ds ! d) ?ds) = d"
    using assms by (simp del: takeWhile.simps)
  then show ?thesis unfolding digit_val_def digit_char_def .
qed

lemma digit_char_0: "digit_char 0 = CHR ''0''"
  by (simp add: digit_char_def)

lemma digit_char_eq_0: "d < 16 \<Longrightarrow> digit_char d = CHR ''0'' \<Longrightarrow> d = 0"
  using digit_val_digit_char [of d] digit_val_digit_char [of 0] digit_char_0 by simp

lemma hex_str_value: "digits_val 16 (hex_str n) = n"
proof (induction n rule: hex_str.induct)
  case (1 n)
  show ?case
  proof (cases "n < 16")
    case True
    then show ?thesis
      by (subst hex_str.simps) (simp add: digits_val_def digit_val_digit_char)
  next
    case False
    with 1 have "digits_val 16 (hex_str (n div 16)) = n div 16" by simp
    moreover have "digit_val (digit_char (n mod 16)) = n mod 16"
      by (rule digit_val_digit_char) simp
    ultimately show ?thesis using False
      by (subst hex_str.simps) (simp add: digits_val_def)
  qed
qed

lemma hex_str_hd: "n \<noteq> 0 \<Longrightarrow> hd (hex_str n) \<noteq> CHR ''0''"
proof (induction n rule: hex_str.induct)
  case (1 n)
  show ?case
  proof (cases "n < 16")
    case True
    with 1(2) digit_char_eq_0 [of n] show ?thesis
      by (subst hex_str.simps) auto
  next
    case False
    then have "n div 16 \<noteq> 0" by simp
    with 1(1) False have "hd (hex_str (n div 16)) \<noteq> CHR ''0''" by simp
    then show ?thesis using False hex_str_nonempty [of "n div 16"]
      by (subst hex_str.simps) simp
  qed
qed

lemma hex_str_0: "hex_str 0 = ''0''"
  by (simp add: hex_str.simps digit_char_def)

lemma dec_str_chars: "set (dec_str n) \<subseteq> set ''0123456789''"
proof (induction n rule: dec_str.induct)
  case (1 n)
  have d: "digit_char k \<in> set ''0123456789''" if "k < 10" for k
  proof -
    have "''0123456789'' ! k \<in> set ''0123456789''" using that by (intro nth_mem) simp
    moreover have "''0123456789abcdef'' ! k = ''0123456789'' ! k"
      using that nth_append [of "''0123456789''" "''abcdef''" k] by simp
    ultimately show ?thesis unfolding digit_char_def by simp
  qed
  show ?case
  proof (cases "n < 10")
    case True
    then show ?thesis using d [of n] by (subst dec_str.simps) simp
  next
    case False
    have "n mod 10 < 10" by simp
    with False 1 d [of "n mod 10"] show ?thesis
      by (subst dec_str.simps) simp
  qed
qed

lemma dec_str_nonempty: "dec_str n \<noteq> []"
  by (subst dec_str.simps) simp

lemma dec_str_value: "digits_val 10 (dec_str n) = n"
proof (induction n rule: dec_str.induct)
  case (1 n)
  show ?case
  proof (cases "n < 10")
    case True
    then show ?thesis
      by (subst dec_str.simps) (simp add: digits_val_def digit_val_digit_char)
  next
    case False
    with 1 have "digits_val 10 (dec_str (n div 10)) = n div 10" by simp
    moreover have "digit_val (digit_char (n mod 10)) = n mod 10"
      by (rule digit_val_digit_char) (simp add: less_trans [OF mod_less_divisor])
    ultimately show ?thesis using False
      by (subst dec_str.simps) (simp add: digits_val_def)
  qed
qed

lemma dec_str_hd: "n \<noteq> 0 \<Longrightarrow> hd (dec_str n) \<noteq> CHR ''0''"
proof (induction n rule: dec_str.induct)
  case (1 n)
  show ?case
  proof (cases "n < 10")
    case True
    with 1(2) digit_char_eq_0 [of n] show ?thesis
      by (subst dec_str.simps) auto
  next
    case False
    then have "n div 10 \<noteq> 0" by simp
    with 1(1) False have "hd (dec_str (n div 10)) \<noteq> CHR ''0''" by simp
    then show ?thesis using False dec_str_nonempty [of "n div 10"]
      by (subst dec_str.simps) simp
  qed
qed

lemma dec_str_length: "0 < k \<Longrightarrow> n < 10 ^ k \<Longrightarrow> length (dec_str n) \<le> k"
proof (induction n arbitrary: k rule: dec_str.induct)
  case (1 n)
  show ?case
  proof (cases "n < 10")
    case True
    then show ?thesis using 1(2) by (subst dec_str.simps) simp
  next
    case False
    then obtain k' where k: "k = Suc k'" using 1(2) by (cases k) auto
    with False 1(3) have "0 < k'" by (cases k') auto
    moreover from 1(3) k have "n div 10 < 10 ^ k'"
      by (simp add: less_mult_imp_div_less mult.commute)
    ultimately have "length (dec_str (n div 10)) \<le> k'"
      using 1(1) False by simp
    with False k show ?thesis by (subst dec_str.simps) simp
  qed
qed

lemma dec_str_u8_length: "length (dec_str (unat (w :: u8))) \<le> 3"
proof -
  have "unat w < 2 ^ 8" using unsigned_less [of w] by simp
  then have "unat w < 10 ^ 3" by simp
  then show ?thesis by (intro dec_str_length) simp_all
qed

subsection \<open>Reading the address\<close>

text \<open>
  With 16 bytes or more the first loop fills \<^verbatim>\<open>v16\<close> with the hextets of the
  address. With fewer it reads past the end.
\<close>

lemma read_hextets_from:
  "16 \<le> length a \<Longrightarrow> length v = 8 \<Longrightarrow> i = 2 * k \<Longrightarrow> k \<le> 8 \<Longrightarrow>
   read_hextets a i v =
     Inr (take k v @ map (\<lambda>k. push_bit 8 (ucast (a ! (2 * k))) OR ucast (a ! (2 * k + 1))) [k..<8])"
proof (induction a i v arbitrary: k rule: read_hextets.induct)
  case (1 a i v)
  show ?case
  proof (cases "k < 8")
    case True
    let ?x = "push_bit 8 (ucast (a ! (2 * k))) OR ucast (a ! (2 * k + 1)) :: u16"
    have p: "peek a i = Inr (a ! (2 * k))" "peek a (i + 1) = Inr (a ! (2 * k + 1))"
      using 1(2,4) True by (simp_all add: peek_def)
    have "read_hextets a (i + 2) (v[i div 2 := ?x]) =
          Inr (take (Suc k) (v[i div 2 := ?x]) @
               map (\<lambda>k. push_bit 8 (ucast (a ! (2 * k))) OR ucast (a ! (2 * k + 1))) [Suc k..<8])"
      using 1(2-5) True p
      by (intro 1(1) [where k = "Suc k"]) simp_all
    moreover have "take (Suc k) (v[i div 2 := ?x]) = take k v @ [?x]"
      using 1(3,4) True by (simp add: take_Suc_conv_app_nth)
    moreover have "[k..<8] = k # [Suc k..<8]"
      using True by (simp add: upt_conv_Cons)
    ultimately show ?thesis
      using True 1(4) p by (subst read_hextets.simps) simp
  next
    case False
    with 1(4,5) have "k = 8" "i = 16" by simp_all
    then show ?thesis using 1(3) by (subst read_hextets.simps) simp
  qed
qed

lemma read_hextets_ok:
  assumes "16 \<le> length a"
  shows "read_hextets a 0 [0, 0, 0, 0, 0, 0, 0, 0] = Inr (hextets a)"
  using read_hextets_from [OF assms, of "[0, 0, 0, 0, 0, 0, 0, 0]" 0 0]
  by (simp add: hextets_def)

lemma read_hextets_short_aux:
  "length a < 16 \<Longrightarrow> i \<le> length a \<Longrightarrow> read_hextets a i v = Inl Read_Past_End"
proof (induction a i v rule: read_hextets.induct)
  case (1 a i v)
  show ?case
  proof (cases "i + 1 < length a")
    case True
    with 1 show ?thesis
      by (subst read_hextets.simps) (simp add: peek_def)
  next
    case False
    with 1 show ?thesis
      by (subst read_hextets.simps) (simp add: peek_def)
  qed
qed

lemma hextets_length: "length (hextets a) = 8"
  by (simp add: hextets_def)

lemma upt8: "[0..<8] = [0, 1, 2, 3, 4, 5, 6, 7]"
  by (simp add: upt_rec)

lemma hextets_bytes:
  "hextets [a0, a1, a2, a3, a4, a5, a6, a7, a8, a9, a10, a11, a12, a13, a14, a15] =
     [push_bit 8 (ucast a0) OR ucast a1, push_bit 8 (ucast a2) OR ucast a3,
      push_bit 8 (ucast a4) OR ucast a5, push_bit 8 (ucast a6) OR ucast a7,
      push_bit 8 (ucast a8) OR ucast a9, push_bit 8 (ucast a10) OR ucast a11,
      push_bit 8 (ucast a12) OR ucast a13, push_bit 8 (ucast a14) OR ucast a15]"
  by (simp add: hextets_def upt8)

lemma hextets_take: "16 \<le> length a \<Longrightarrow> hextets (take 16 a) = hextets a"
  by (simp add: hextets_def)

subsection \<open>Zero runs\<close>

lemma zero_run_same_start:
  assumes "zero_run v s n" "zero_run v s n'"
  shows "n = n'"
proof (rule ccontr)
  assume ne: "n \<noteq> n'"
  have aux: False if a: "zero_run v s a" and b: "zero_run v s b" and lt: "a < b" for a b
  proof -
    from b lt have "s + a < length v" "v ! (s + a) = 0"
      by (auto simp: zero_run_def)
    with a show False by (auto simp: zero_run_def)
  qed
  from ne assms aux [of n n'] aux [of n' n] show False
    by (cases "n < n'") auto
qed

lemma zero_run_not_inside:
  assumes "zero_run v s n" "zero_run v s' n'" "s < s'"
  shows "s + n < s'"
proof (rule ccontr)
  assume "\<not> s + n < s'"
  with assms(3) have "s' - 1 \<in> set [s..<s + n]" "s' \<noteq> 0" by auto
  with assms(1) have "v ! (s' - 1) = 0" by (auto simp: zero_run_def)
  with assms(2) \<open>s' \<noteq> 0\<close> show False by (auto simp: zero_run_def)
qed

lemma selected_run_iff:
  "selected_run v s n \<longleftrightarrow>
     zero_run v s n \<and> 2 \<le> n \<and> (\<forall>s' n'. zero_run v s' n' \<longrightarrow> n' < n \<or> (n' = n \<and> s \<le> s'))"
proof -
  have "s' \<in> set [0..<length v] \<and> n' \<in> set [0..<Suc (length v)]" if "zero_run v s' n'" for s' n'
    using that by (auto simp: zero_run_def)
  then show ?thesis unfolding selected_run_def by blast
qed

lemma selected_run_unique:
  assumes "selected_run v s n" "selected_run v s' n'"
  shows "s = s' \<and> n = n'"
proof -
  from assms have "n' < n \<or> (n' = n \<and> s \<le> s')" "n < n' \<or> (n = n' \<and> s' \<le> s)"
    unfolding selected_run_iff by blast+
  then show ?thesis by auto
qed

lemma selected_run_bounds:
  "selected_run v s n \<Longrightarrow> 2 \<le> n \<and> s + n \<le> length v"
  by (simp add: selected_run_def zero_run_def)

lemma isolated_zero_outside:
  assumes "zero_run v k 1" "selected_run v idx nmax"
  shows "Suc k < idx \<or> idx + nmax < k"
proof -
  from assms(2) have z: "zero_run v idx nmax" "2 \<le> nmax" by (simp_all add: selected_run_def)
  have "k \<noteq> idx" using zero_run_same_start [OF assms(1), of nmax] z by auto
  then consider "k < idx" | "idx < k" by linarith
  then show ?thesis
  proof cases
    case 1
    from zero_run_not_inside [OF assms(1) z(1) 1] show ?thesis by simp
  next
    case 2
    from zero_run_not_inside [OF z(1) assms(1) 2] show ?thesis by simp
  qed
qed

subsection \<open>The search for the largest block\<close>

text \<open>
  The inner loop stops at the last hextet of the zero run it starts in. The outer loop
  keeps \<open>best_upto\<close> and \<open>at_boundary\<close>; when it is left, \<open>(nmax, idx)\<close> is
  the run the specification selects, or \<open>(0, 8)\<close> when no run has two hextets.
\<close>

lemma zero_block_end_ge: "j \<le> zero_block_end v16 j"
proof (induction v16 j rule: zero_block_end.induct)
  case (1 v16 j)
  show ?case
  proof (cases "j < 8 - 1 \<and> v16 ! (j + 1) = 0")
    case True
    with 1 have "j + 1 \<le> zero_block_end v16 (j + 1)" by simp
    moreover from True have "zero_block_end v16 j = zero_block_end v16 (j + 1)"
      by (subst zero_block_end.simps) simp
    ultimately show ?thesis by simp
  next
    case False
    then have "zero_block_end v16 j = j"
      by (subst zero_block_end.simps) auto
    then show ?thesis by simp
  qed
qed

lemma zero_block_end_props:
  "j0 \<le> 7 \<Longrightarrow>
   zero_block_end v j0 \<le> 7 \<and> (\<forall>k. j0 < k \<and> k \<le> zero_block_end v j0 \<longrightarrow> v ! k = 0) \<and>
   (zero_block_end v j0 < 7 \<longrightarrow> v ! (zero_block_end v j0 + 1) \<noteq> 0)"
proof (induction v j0 rule: zero_block_end.induct)
  case (1 v j)
  show ?case
  proof (cases "j < 8 - 1 \<and> v ! (j + 1) = 0")
    case True
    then have e: "zero_block_end v j = zero_block_end v (j + 1)"
      by (subst zero_block_end.simps) simp
    from True 1 have ih:
      "zero_block_end v (j + 1) \<le> 7"
      "\<forall>k. j + 1 < k \<and> k \<le> zero_block_end v (j + 1) \<longrightarrow> v ! k = 0"
      "zero_block_end v (j + 1) < 7 \<longrightarrow> v ! (zero_block_end v (j + 1) + 1) \<noteq> 0"
      by simp_all
    have "v ! k = 0" if "j < k" "k \<le> zero_block_end v (j + 1)" for k
      using that True ih(2) by (cases "k = j + 1") auto
    with ih e show ?thesis by simp
  next
    case False
    then have "zero_block_end v j = j"
      by (subst zero_block_end.simps) auto
    with False 1(2) show ?thesis by auto
  qed
qed

lemma best_upto_skip:
  assumes "best_upto v i nmax idx" "i < 7" "v ! i \<noteq> 0 \<or> v ! (i + 1) \<noteq> 0" "length v = 8"
  shows "best_upto v (i + 1) nmax idx"
proof -
  have "\<not> (zero_run v i n \<and> 2 \<le> n)" for n
  proof
    assume a: "zero_run v i n \<and> 2 \<le> n"
    then have "i \<in> set [i..<i + n]" "i + 1 \<in> set [i..<i + n]" by auto
    with a have "v ! i = 0" "v ! (i + 1) = 0" unfolding zero_run_def by blast+
    with assms(3) show False by simp
  qed
  then have "s < i" if "zero_run v s n" "2 \<le> n" "s < i + 1" for s n
    using that by (cases "s = i") auto
  with assms(1) show ?thesis
    unfolding best_upto_def by (metis less_SucI Suc_eq_plus1)
qed

lemma block_is_run:
  assumes "length v = 8" "at_boundary v i" "i < 7" "v ! i = 0" "j = zero_block_end v i"
  shows "zero_run v i (j - i + 1)" "i \<le> j" "j \<le> 7"
proof -
  from assms(3) have i7: "i \<le> 7" by simp
  note p = zero_block_end_props [OF i7, of v, folded assms(5)]
  show ij: "i \<le> j" using zero_block_end_ge assms(5) by simp
  show "j \<le> 7" using p by simp
  have z: "v ! k = 0" if "k \<in> set [i..<i + (j - i + 1)]" for k
    using that p assms(4) ij by (cases "k = i") auto
  have "i = 0 \<or> v ! (i - 1) \<noteq> 0"
    using assms(2,3,4) by (auto simp: at_boundary_def)
  moreover have "i + (j - i + 1) = length v \<or> v ! (i + (j - i + 1)) \<noteq> 0"
    using p ij assms(1) by (cases "j < 7") auto
  ultimately show "zero_run v i (j - i + 1)"
    unfolding zero_run_def using z ij p assms(1) by auto
qed

lemma best_upto_block:
  assumes v: "length v = 8" and b: "at_boundary v i" and i: "i < 7" and z: "v ! i = 0"
    and j: "j = zero_block_end v i" and ne: "i \<noteq> j" and inv: "best_upto v i nmax idx"
  shows "best_upto v (j + 1) (if j - i \<ge> nmax then j - i + 1 else nmax)
           (if j - i \<ge> nmax then i else idx)"
proof -
  note r = block_is_run [OF v b i z j]
  from r(2) ne have ij: "i < j" by simp
  have runs: "s < i \<or> (s = i \<and> n = j - i + 1)" if "zero_run v s n" "s < j + 1" for s n
  proof (cases "s \<le> i")
    case True
    then show ?thesis using that(1) r(1) zero_run_same_start by (cases "s = i") auto
  next
    case False
    then have "i + (j - i + 1) < s" using zero_run_not_inside [OF r(1) that(1)] by simp
    with that(2) ij show ?thesis by simp
  qed
  from inv have old:
    "\<And>s n. zero_run v s n \<Longrightarrow> 2 \<le> n \<Longrightarrow> s < i \<Longrightarrow> n < nmax \<or> (n = nmax \<and> idx \<le> s)"
    "nmax = 0 \<and> idx = 8 \<or> 2 \<le> nmax \<and> idx < i \<and> zero_run v idx nmax"
    unfolding best_upto_def by blast+
  show ?thesis
  proof (cases "j - i \<ge> nmax")
    case True
    have "n < j - i + 1 \<or> (n = j - i + 1 \<and> i \<le> s)"
      if "zero_run v s n" "2 \<le> n" "s < j + 1" for s n
      using runs [OF that(1,3)] old(1) [OF that(1,2)] True by auto
    with True r(1) ij show ?thesis unfolding best_upto_def by auto
  next
    case False
    with old(2) have o: "2 \<le> nmax" "idx < i" "zero_run v idx nmax" by auto
    have "n < nmax \<or> (n = nmax \<and> idx \<le> s)"
      if "zero_run v s n" "2 \<le> n" "s < j + 1" for s n
      using runs [OF that(1,3)] old(1) [OF that(1,2)] False o(2) by auto
    with False o ij show ?thesis unfolding best_upto_def by auto
  qed
qed

lemma find_zero_block_inv:
  "length v = 8 \<Longrightarrow> at_boundary v i \<Longrightarrow> best_upto v i nmax idx \<Longrightarrow>
   find_zero_block v i nmax idx = (n', x') \<Longrightarrow> best_upto v 8 n' x'"
proof (induction v i nmax idx rule: find_zero_block.induct)
  case (1 v i nmax idx)
  note v = \<open>length v = 8\<close>
  show ?case
  proof (cases "i < 8 - 1")
    case False
    then have e: "n' = nmax" "x' = idx"
      using 1(8) by (subst (asm) find_zero_block.simps, simp)+
    have "s < i" if "zero_run v s n" "2 \<le> n" for s n
      using that False v by (auto simp: zero_run_def)
    moreover have "idx < 8" if "zero_run v idx nmax"
      using that v by (auto simp: zero_run_def)
    ultimately show ?thesis using 1(7) unfolding e best_upto_def by blast
  next
    case i: True
    then have i7: "i < 7" by simp
    show ?thesis
    proof (cases "v ! i \<noteq> 0")
      case True
      then have e: "find_zero_block v i nmax idx = find_zero_block v (i + 1) nmax idx"
        using i by (subst find_zero_block.simps) simp
      have "at_boundary v (i + 1)" using True by (simp add: at_boundary_def)
      moreover have "best_upto v (i + 1) nmax idx"
        using best_upto_skip [OF 1(7) i7 _ v] True by simp
      ultimately show ?thesis using 1(1) [OF i True v] 1(8) e by simp
    next
      case z: False
      define j where "j = zero_block_end v i"
      show ?thesis
      proof (cases "i = j")
        case True
        then have zi: "zero_block_end v i = i" unfolding j_def by simp
        have e: "find_zero_block v i nmax idx = find_zero_block v (i + 1) nmax idx"
          using i z by (subst find_zero_block.simps) (simp add: zi)
        from zero_block_end_props [of i v] i7 have nz: "v ! (i + 1) \<noteq> 0"
          unfolding zi by simp
        then have "at_boundary v (i + 1)" by (simp add: at_boundary_def)
        moreover have "best_upto v (i + 1) nmax idx"
          using best_upto_skip [OF 1(7) i7 _ v] nz by simp
        ultimately show ?thesis using 1(2) [OF i z j_def True v] 1(8) e by simp
      next
        case ne: False
        from z have z': "v ! i = 0" by simp
        note r = block_is_run [OF v 1(6) i7 z' j_def]
        note bu = best_upto_block [OF v 1(6) i7 z' j_def ne 1(7)]
        from zero_block_end_props [of i v] i7 j_def
        have "j < 7 \<longrightarrow> v ! (j + 1) \<noteq> 0" by auto
        with r(3) have ab: "at_boundary v (j + 1)" by (auto simp: at_boundary_def)
        show ?thesis
        proof (cases "j - i \<ge> nmax")
          case True
          then have e: "find_zero_block v i nmax idx = find_zero_block v (j + 1) (j - i + 1) i"
            using i z j_def ne by (subst find_zero_block.simps) (simp add: Let_def)
          from bu True have "best_upto v (j + 1) (j - i + 1) i" by simp
          then show ?thesis using 1(3) [OF i z j_def ne True v ab] 1(8) e by simp
        next
          case False
          then have e: "find_zero_block v i nmax idx = find_zero_block v (j + 1) nmax idx"
            using i z j_def ne by (subst find_zero_block.simps) (simp add: Let_def)
          from bu False have "best_upto v (j + 1) nmax idx" by simp
          then show ?thesis using 1(4) [OF i z j_def ne False v ab] 1(8) e by simp
        qed
      qed
    qed
  qed
qed

lemma best_upto_init: "best_upto v 0 0 8"
  by (simp add: best_upto_def)

lemma find_zero_block_spec:
  assumes "length v = 8"
  shows "(\<exists>s n. zero_run v s n \<and> 2 \<le> n) \<longrightarrow>
           selected_run v (snd (find_zero_block v 0 0 8)) (fst (find_zero_block v 0 0 8))"
    and "\<not> (\<exists>s n. zero_run v s n \<and> 2 \<le> n) \<longrightarrow> find_zero_block v 0 0 8 = (0, 8)"
proof -
  obtain n' x' where e: "find_zero_block v 0 0 8 = (n', x')" by (cases "find_zero_block v 0 0 8")
  have "at_boundary v 0" by (simp add: at_boundary_def)
  from find_zero_block_inv [OF assms this best_upto_init e]
  have b: "best_upto v 8 n' x'" .
  have lt: "s < 8" if "zero_run v s n" for s n using that assms by (auto simp: zero_run_def)
  show "(\<exists>s n. zero_run v s n \<and> 2 \<le> n) \<longrightarrow>
           selected_run v (snd (find_zero_block v 0 0 8)) (fst (find_zero_block v 0 0 8))"
  proof
    assume "\<exists>s n. zero_run v s n \<and> 2 \<le> n"
    then obtain s n where sn: "zero_run v s n" "2 \<le> n" by blast
    with b lt [OF sn(1)] have nz: "2 \<le> n'" "zero_run v x' n'"
      unfolding best_upto_def by fastforce+
    have "m < n' \<or> (m = n' \<and> x' \<le> t)" if "zero_run v t m" for t m
    proof (cases "2 \<le> m")
      case True
      with b that lt [OF that] show ?thesis unfolding best_upto_def by blast
    next
      case False
      with nz show ?thesis by simp
    qed
    with nz show "selected_run v (snd (find_zero_block v 0 0 8)) (fst (find_zero_block v 0 0 8))"
      unfolding selected_run_iff e by simp
  qed
  show "\<not> (\<exists>s n. zero_run v s n \<and> 2 \<le> n) \<longrightarrow> find_zero_block v 0 0 8 = (0, 8)"
    using b e unfolding best_upto_def by auto
qed

lemma find_zero_block_cases:
  assumes "length v = 8"
  shows "find_zero_block v 0 0 8 = (0, 8) \<and> \<not> (\<exists>s n. zero_run v s n \<and> 2 \<le> n) \<or>
         (\<exists>nmax idx. find_zero_block v 0 0 8 = (nmax, idx) \<and> selected_run v idx nmax)"
proof (cases "\<exists>s n. zero_run v s n \<and> 2 \<le> n")
  case True
  with find_zero_block_spec(1) [OF assms]
  have "selected_run v (snd (find_zero_block v 0 0 8)) (fst (find_zero_block v 0 0 8))" by simp
  then show ?thesis by (metis prod.collapse)
next
  case False
  with find_zero_block_spec(2) [OF assms] show ?thesis by simp
qed

subsection \<open>Writing into the buffer\<close>

text \<open>
  Each \<^verbatim>\<open>sprintf\<close> and each single character stored at the write position
  appends to the text written so far; the final null character gives \<open>stored\<close>.
\<close>

lemma wrote_init: "wrote b [] b"
  by (simp add: wrote_def)

lemma sprintf_wrote:
  assumes "wrote b0 t b" "length t + length s < length b0"
  shows "\<exists>b'. sprintf_at b (length t) s = Inr (b', length s) \<and> wrote b0 (t @ s) b'"
proof -
  let ?b' = "take (length t) b @ s @ NUL # drop (length t + length s + 1) b"
  from assms have l: "length b = length b0" and tk: "take (length t) b = t"
    and dr: "drop (Suc (length t)) b = drop (Suc (length t)) b0"
    by (simp_all add: wrote_def)
  have "sprintf_at b (length t) s = Inr (?b', length s)"
    using assms(2) l by (simp add: sprintf_at_def)
  moreover have "length ?b' = length b0" using assms(2) l by simp
  moreover have "take (length (t @ s)) ?b' = t @ s" using tk by simp
  moreover have "drop (Suc (length (t @ s))) ?b' = drop (Suc (length (t @ s))) b0"
  proof -
    have "drop (Suc (length (t @ s))) ?b' = drop (length t + length s + 1) b"
      using tk by (simp add: l assms(2) min_def)
    also have "\<dots> = drop (length s) (drop (Suc (length t)) b)" by (simp add: add.commute)
    also have "\<dots> = drop (Suc (length (t @ s))) b0" unfolding dr by (simp add: add.commute)
    finally show ?thesis .
  qed
  ultimately show ?thesis using assms(2) unfolding wrote_def by auto
qed

lemma poke_wrote:
  assumes "wrote b0 t b" "length t < length b0"
  shows "\<exists>b'. poke b (length t) c = Inr b' \<and> wrote b0 (t @ [c]) b'"
proof -
  from assms have l: "length b = length b0" and tk: "take (length t) b = t"
    and dr: "drop (Suc (length t)) b = drop (Suc (length t)) b0"
    by (simp_all add: wrote_def)
  have "poke b (length t) c = Inr (b[length t := c])"
    using assms(2) l by (simp add: poke_def)
  moreover have "take (length (t @ [c])) (b[length t := c]) = t @ [c]"
    using assms(2) l tk by (simp add: take_Suc_conv_app_nth)
  moreover have "drop (Suc (length (t @ [c]))) (b[length t := c]) = drop (Suc (length (t @ [c]))) b0"
  proof -
    have "drop (Suc (length (t @ [c]))) (b[length t := c]) = drop 1 (drop (Suc (length t)) b)"
      by simp
    also have "\<dots> = drop (Suc (length (t @ [c]))) b0" unfolding dr by simp
    finally show ?thesis .
  qed
  ultimately show ?thesis using assms(2) l unfolding wrote_def by auto
qed

lemma poke_final:
  assumes "wrote b0 t b" "length t < length b0"
  shows "poke b (length t) NUL = Inr (stored b0 t)"
proof -
  from assms have l: "length b = length b0" and tk: "take (length t) b = t"
    and dr: "drop (Suc (length t)) b = drop (Suc (length t)) b0"
    by (simp_all add: wrote_def)
  have "b[length t := NUL] = take (length t) b @ NUL # drop (Suc (length t)) b"
    using assms(2) l by (simp add: upd_conv_take_nth_drop)
  then show ?thesis using assms(2) l tk dr by (simp add: poke_def stored_def)
qed

lemma peek_last:
  assumes "wrote b0 t b" "t \<noteq> []"
  shows "peek b (length t - 1) = Inr (last t)"
proof -
  from assms have l: "length t \<le> length b" and tk: "take (length t) b = t"
    by (simp_all add: wrote_def)
  from assms(2) have lt: "length t - 1 < length t" by (cases t) auto
  have "b ! (length t - 1) = take (length t) b ! (length t - 1)"
    using lt by simp
  also have "\<dots> = last t" unfolding tk using assms(2) by (simp add: last_conv_nth)
  finally show ?thesis using lt l by (simp add: peek_def)
qed

lemma sprintf_at_start:
  "length s < length b \<Longrightarrow> sprintf_at b 0 s = Inr (stored b s, length s)"
  by (simp add: sprintf_at_def stored_def)

lemma c_str_stored: "NUL \<notin> set t \<Longrightarrow> c_str (stored b t) = t"
  by (auto simp: c_str_def stored_def takeWhile_tail)

lemma stored_props:
  assumes "length t < length b"
  shows "length (stored b t) = length b" "stored b t ! length t = NUL"
    "take (length t) (stored b t) = t"
    "drop (Suc (length t)) (stored b t) = drop (Suc (length t)) b"
  using assms by (simp_all add: stored_def)

subsection \<open>Texts joined by colons\<close>

lemma join_colon_Cons:
  "join_colon (x # xs) = (if xs = [] then x else x @ '':'' @ join_colon xs)"
  by (cases xs) simp_all

lemma join_colon_length:
  "length (join_colon (map hex16 ws)) \<le> 5 * length ws - 1"
proof (induction ws)
  case Nil
  show ?case by simp
next
  case (Cons w ws)
  show ?case
  proof (cases ws)
    case Nil
    then show ?thesis using hex_str_u16_length [of w] by simp
  next
    case (Cons w' ws')
    with Cons.IH hex_str_u16_length [of w] show ?thesis
      by (simp add: join_colon_Cons)
  qed
qed

lemma join_colon_nonempty: "ws \<noteq> [] \<Longrightarrow> join_colon (map hex16 ws) \<noteq> []"
  by (cases ws) (simp_all add: join_colon_Cons hex_str_nonempty)

lemma join_colon_last:
  "ws \<noteq> [] \<Longrightarrow> last (join_colon (map hex16 ws)) = last (hex16 (last ws))"
proof (induction ws)
  case Nil
  then show ?case by simp
next
  case (Cons w ws)
  then show ?case
    by (cases "ws = []") (simp_all add: join_colon_Cons join_colon_nonempty)
qed

lemma join_colon_last_no_colon:
  assumes "ws \<noteq> []"
  shows "last (join_colon (map hex16 ws)) \<noteq> CHR '':''"
proof -
  have "last (hex16 (last ws)) \<in> set (hex16 (last ws))"
    by (rule last_in_set) (rule hex_str_nonempty)
  with hex_str_no_colon [of "unat (last ws)"] join_colon_last [OF assms]
  show ?thesis by metis
qed

lemma join_colon_hd:
  "ws \<noteq> [] \<Longrightarrow> hd (join_colon (map hex16 ws)) = hd (hex16 (hd ws))"
  by (cases ws) (simp_all add: join_colon_Cons hex_str_nonempty)

lemma join_colon_hd_no_colon:
  assumes "ws \<noteq> []"
  shows "hd (join_colon (map hex16 ws)) \<noteq> CHR '':''"
proof -
  have "hd (hex16 (hd ws)) \<in> set (hex16 (hd ws))"
    by (rule hd_in_set) (rule hex_str_nonempty)
  with hex_str_no_colon [of "unat (hd ws)"] join_colon_hd [OF assms]
  show ?thesis by metis
qed

lemma tail_text:
  "ws \<noteq> [] \<Longrightarrow>
   concat (map (\<lambda>w. CHR '':'' # hex16 w) ws) = CHR '':'' # join_colon (map hex16 ws)"
proof (induction ws)
  case Nil
  then show ?case by simp
next
  case (Cons w ws)
  then show ?case by (cases "ws = []") (simp_all add: join_colon_Cons)
qed

lemma join_colon_chars:
  "set (join_colon (map hex16 ws)) \<subseteq> insert CHR '':'' (set ''0123456789abcdef'')"
proof (induction ws)
  case Nil
  show ?case by simp
next
  case (Cons w ws)
  have "set (join_colon (map hex16 (w # ws))) \<subseteq>
          set (hex16 w) \<union> insert CHR '':'' (set (join_colon (map hex16 ws)))"
    by (cases ws) auto
  with Cons hex_str_chars [of "unat w"] show ?case by blast
qed

lemma text_chars_eq:
  "set ''0123456789abcdef:'' = insert CHR '':'' (set ''0123456789abcdef'')"
proof -
  have "''0123456789abcdef:'' = ''0123456789abcdef'' @ [CHR '':'']" by simp
  then have "set ''0123456789abcdef:'' = set (''0123456789abcdef'' @ [CHR '':''])"
    by (rule arg_cong)
  also have "\<dots> = set ''0123456789abcdef'' \<union> set [CHR '':'']" by (rule set_append)
  also have "\<dots> = insert CHR '':'' (set ''0123456789abcdef'')"
    by (simp only: list.set Un_insert_right Un_empty_right)
  finally show ?thesis .
qed

lemma join_colon_split:
  "join_colon (map hex16 (xs @ y # zs)) =
     (if xs = [] then [] else join_colon (map hex16 xs) @ '':'') @ hex16 y @
     (if zs = [] then [] else '':'' @ join_colon (map hex16 zs))"
proof (induction xs)
  case Nil
  show ?case by (simp add: join_colon_Cons)
next
  case (Cons x xs)
  then show ?case by (simp add: join_colon_Cons)
qed

lemma join_colon_ends:
  assumes "ws \<noteq> []"
  shows "\<exists>X. join_colon (map hex16 ws) = X @ hex16 (last ws)"
    and "\<exists>Y. join_colon (map hex16 ws) = hex16 (hd ws) @ Y"
proof -
  from assms obtain xs where "ws = xs @ [last ws]"
    by (metis append_butlast_last_id)
  then have "join_colon (map hex16 ws) = join_colon (map hex16 (xs @ last ws # []))" by simp
  also have "\<dots> = (if xs = [] then [] else join_colon (map hex16 xs) @ '':'') @ hex16 (last ws)"
    unfolding join_colon_split by simp
  finally show "\<exists>X. join_colon (map hex16 ws) = X @ hex16 (last ws)" by blast
  from assms obtain zs where "ws = hd ws # zs" by (cases ws) auto
  then have "join_colon (map hex16 ws) = join_colon (map hex16 ([] @ hd ws # zs))" by simp
  also have "\<dots> = hex16 (hd ws) @ (if zs = [] then [] else '':'' @ join_colon (map hex16 zs))"
    unfolding join_colon_split by simp
  finally show "\<exists>Y. join_colon (map hex16 ws) = hex16 (hd ws) @ Y" by blast
qed

lemma segment_split:
  assumes "lo \<le> k" "k < hi" "hi \<le> length v"
  shows "take (hi - lo) (drop lo v) =
           take (k - lo) (drop lo v) @ v ! k # take (hi - Suc k) (drop (Suc k) v)"
proof -
  have "take (hi - lo) (drop lo v) =
          take (k - lo) (drop lo v) @ take (hi - k) (drop (k - lo) (drop lo v))"
    using assms take_add [of "k - lo" "hi - k" "drop lo v"] by simp
  also have "drop (k - lo) (drop lo v) = drop k v" using assms by simp
  also have "drop k v = v ! k # drop (Suc k) v"
    using assms by (simp add: Cons_nth_drop_Suc)
  also have "take (hi - k) (v ! k # drop (Suc k) v) = v ! k # take (hi - Suc k) (drop (Suc k) v)"
  proof -
    have "hi - k = Suc (hi - Suc k)" using assms by simp
    then show ?thesis by simp
  qed
  finally show ?thesis .
qed

lemma join_colon_segment:
  assumes "lo \<le> k" "k < hi" "hi \<le> length v"
  shows "\<exists>L R. join_colon (map hex16 (take (hi - lo) (drop lo v))) = L @ hex16 (v ! k) @ R \<and>
           (if k = lo then L = [] else \<exists>X. L = X @ hex16 (v ! (k - 1)) @ '':'') \<and>
           (if Suc k = hi then R = [] else \<exists>Y. R = '':'' @ hex16 (v ! Suc k) @ Y)"
proof -
  let ?xs = "take (k - lo) (drop lo v)"
  let ?zs = "take (hi - Suc k) (drop (Suc k) v)"
  let ?L = "if ?xs = [] then [] else join_colon (map hex16 ?xs) @ '':''"
  let ?R = "if ?zs = [] then [] else '':'' @ join_colon (map hex16 ?zs)"
  have "join_colon (map hex16 (take (hi - lo) (drop lo v))) = ?L @ hex16 (v ! k) @ ?R"
    unfolding segment_split [OF assms] join_colon_split ..
  moreover have "if k = lo then ?L = [] else \<exists>X. ?L = X @ hex16 (v ! (k - 1)) @ '':''"
  proof (cases "k = lo")
    case True
    then show ?thesis by simp
  next
    case False
    with assms have lt: "lo < k" "k \<le> length v" by simp_all
    then have ne: "?xs \<noteq> []" by simp
    have "last ?xs = ?xs ! (length ?xs - 1)" using ne by (rule last_conv_nth)
    also have "\<dots> = v ! (k - 1)" using lt by simp
    finally have "last ?xs = v ! (k - 1)" .
    with join_colon_ends(1) [OF ne] False ne show ?thesis by auto
  qed
  moreover have "if Suc k = hi then ?R = [] else \<exists>Y. ?R = '':'' @ hex16 (v ! Suc k) @ Y"
  proof (cases "Suc k = hi")
    case True
    then show ?thesis by simp
  next
    case False
    with assms have lt: "Suc k < hi" "Suc k < length v" by simp_all
    then have ne: "?zs \<noteq> []" by simp
    have "hd ?zs = ?zs ! 0" using ne by (rule hd_conv_nth)
    also have "\<dots> = v ! Suc k" using lt by simp
    finally have "hd ?zs = v ! Suc k" .
    with join_colon_ends(2) [OF ne] False ne show ?thesis by auto
  qed
  ultimately show ?thesis by blast
qed

lemma count_dcolon_Cons:
  "count_dcolon (c # cs) =
     (if cs \<noteq> [] \<and> c = CHR '':'' \<and> hd cs = CHR '':'' then 1 else 0) + count_dcolon cs"
  by (cases cs) simp_all

lemma count_dcolon_append:
  "xs \<noteq> [] \<Longrightarrow> ys \<noteq> [] \<Longrightarrow>
   count_dcolon (xs @ ys) =
     count_dcolon xs + (if last xs = CHR '':'' \<and> hd ys = CHR '':'' then 1 else 0) +
     count_dcolon ys"
proof (induction xs)
  case Nil
  then show ?case by simp
next
  case (Cons x xs)
  show ?case
  proof (cases "xs = []")
    case True
    then show ?thesis using Cons.prems by (simp add: count_dcolon_Cons)
  next
    case False
    with Cons show ?thesis by (simp add: count_dcolon_Cons)
  qed
qed

lemma count_dcolon_none: "CHR '':'' \<notin> set cs \<Longrightarrow> count_dcolon cs = 0"
  by (induction cs) (auto simp: count_dcolon_Cons)

lemma count_dcolon_prefix: "count_dcolon cs \<le> count_dcolon (p @ cs)"
  by (induction p) (simp_all add: count_dcolon_Cons)

lemma count_dcolon_triple: "2 \<le> count_dcolon (p @ '':::'' @ q)"
proof -
  have "2 \<le> count_dcolon ('':::'' @ q)" by (simp add: count_dcolon_Cons)
  with count_dcolon_prefix [of "'':::'' @ q" p] show ?thesis by simp
qed

lemma join_colon_count: "count_dcolon (join_colon (map hex16 ws)) = 0"
proof (induction ws)
  case Nil
  show ?case by simp
next
  case (Cons w ws)
  show ?case
  proof (cases "ws = []")
    case True
    then show ?thesis by (simp add: count_dcolon_none hex_str_no_colon)
  next
    case False
    let ?j = "join_colon (map hex16 ws)"
    have j: "?j \<noteq> []" "hd ?j \<noteq> CHR '':''"
      using join_colon_nonempty [OF False] join_colon_hd_no_colon [OF False] by simp_all
    have "count_dcolon (CHR '':'' # ?j) = 0"
      using j Cons.IH by (simp add: count_dcolon_Cons)
    moreover have "last (hex16 w) \<noteq> CHR '':''"
      using last_in_set [OF hex_str_nonempty, of "unat w"] hex_str_no_colon [of "unat w"]
      by metis
    ultimately have "count_dcolon (hex16 w @ CHR '':'' # ?j) = 0"
      using count_dcolon_append [of "hex16 w" "CHR '':'' # ?j"]
      by (simp add: hex_str_nonempty count_dcolon_none hex_str_no_colon)
    then show ?thesis using False by (simp add: join_colon_Cons)
  qed
qed

lemma compressed_count:
  "count_dcolon (join_colon (map hex16 xs) @ ''::'' @ join_colon (map hex16 ys)) = 1"
proof -
  let ?h = "join_colon (map hex16 xs)"
  let ?t = "join_colon (map hex16 ys)"
  have t: "count_dcolon (''::'' @ ?t) = 1"
  proof (cases "ys = []")
    case True
    then show ?thesis by simp
  next
    case False
    then show ?thesis
      using join_colon_nonempty [OF False] join_colon_hd_no_colon [OF False]
        join_colon_count [of ys]
      by (simp add: count_dcolon_Cons)
  qed
  show ?thesis
  proof (cases "xs = []")
    case True
    then show ?thesis using t by simp
  next
    case False
    have "count_dcolon (?h @ (''::'' @ ?t)) =
            count_dcolon ?h + (if last ?h = CHR '':'' \<and> hd (''::'' @ ?t) = CHR '':'' then 1 else 0) +
            count_dcolon (''::'' @ ?t)"
      by (rule count_dcolon_append) (simp_all add: join_colon_nonempty [OF False])
    then show ?thesis
      using t join_colon_count [of xs] join_colon_last_no_colon [OF False] by simp
  qed
qed

lemma has_infix_here: "has_infix p (p @ b)"
proof (cases "p @ b")
  case Nil
  then show ?thesis by simp
next
  case (Cons c cs)
  have "take (length p) (p @ b) = p" by simp
  then have "take (length p) (c # cs) = p" unfolding Cons .
  then have "has_infix p (c # cs)" by simp
  then show ?thesis unfolding Cons .
qed

lemma has_infix_append: "has_infix p (a @ p @ b)"
proof (induction a)
  case Nil
  show ?case using has_infix_here [of p b] by simp
next
  case (Cons x a)
  then show ?case by simp
qed

lemma ends_with_two_colons_append:
  "ends_with_two_colons (p @ ''::'') \<longleftrightarrow> p = [] \<or> last p \<noteq> CHR '':''"
proof (cases "p = []")
  case True
  then show ?thesis by (simp add: ends_with_two_colons_def)
next
  case False
  then obtain q c where p: "p = q @ [c]" by (metis append_butlast_last_id)
  then show ?thesis by (simp add: ends_with_two_colons_def)
qed

subsection \<open>The output loops\<close>

text \<open>
  The loop before the block appends the hextets before \<^verbatim>\<open>idx\<close> joined by colons;
  the loop after it appends a colon and a hextet for each of the hextets left. Five
  characters of room for each hextet are enough.
\<close>

lemma emit_head_wrote:
  "length v = 8 \<Longrightarrow> idx \<le> 8 \<Longrightarrow> i \<le> idx \<Longrightarrow> wrote b0 t b \<Longrightarrow> j = length t \<Longrightarrow>
   length t + 5 * (idx - i) \<le> length b0 \<Longrightarrow>
   \<exists>b'. emit_head v idx b i j =
           Inr (b', idx, length (t @ join_colon (map hex16 (take (idx - i) (drop i v))))) \<and>
        wrote b0 (t @ join_colon (map hex16 (take (idx - i) (drop i v)))) b'"
proof (induction v idx b i j arbitrary: t rule: emit_head.induct)
  case (1 v idx b i j)
  show ?case
  proof (cases "i < idx")
    case False
    with 1(4) have "i = idx" by simp
    then show ?thesis using 1(5,6) by (subst emit_head.simps) simp
  next
    case True
    let ?h = "hex16 (v ! i)"
    have hl: "length ?h \<le> 4" by (rule hex_str_u16_length)
    from True 1(2,3) have dr: "drop i v = v ! i # drop (Suc i) v"
      by (simp add: Cons_nth_drop_Suc)
    from True obtain d where d: "idx - i = Suc d" by (cases "idx - i") auto
    have fits: "length t + length ?h < length b0" using hl 1(7) d by simp
    from sprintf_wrote [OF 1(5) fits]
    obtain b1 where b1: "sprintf_at b (length t) ?h = Inr (b1, length ?h)"
      "wrote b0 (t @ ?h) b1" by auto
    show ?thesis
    proof (cases "i + 1 = idx")
      case last: True
      then have "d = 0" using d by simp
      then show ?thesis using True last b1 1(6) dr d
        by (subst emit_head.simps) simp
    next
      case more: False
      with d have d0: "0 < d" "idx - (i + 1) = d" by simp_all
      have fits2: "length (t @ ?h) < length b0" using hl 1(7) d by simp
      from poke_wrote [OF b1(2) fits2, of "CHR '':''"]
      obtain b2 where b2: "poke b1 (length (t @ ?h)) CHR '':'' = Inr b2"
        "wrote b0 ((t @ ?h) @ '':'') b2" by auto
      have s1: "sprintf_at b j ?h = Inr (b1, length ?h)" using b1(1) 1(6) by simp
      have p1: "poke b1 (j + length ?h) CHR '':'' = Inr b2" using b2(1) 1(6) by simp
      have le: "i + 1 \<le> idx" using True by simp
      have jl: "j + length ?h + 1 = length ((t @ ?h) @ '':'')" using 1(6) by simp
      have bound: "length ((t @ ?h) @ '':'') + 5 * (idx - (i + 1)) \<le> length b0"
        using hl 1(7) d by simp
      have "\<exists>b'. emit_head v idx b2 (i + 1) (j + length ?h + 1) =
           Inr (b', idx, length (((t @ ?h) @ '':'') @
                  join_colon (map hex16 (take (idx - (i + 1)) (drop (i + 1) v))))) \<and>
        wrote b0 (((t @ ?h) @ '':'') @
                  join_colon (map hex16 (take (idx - (i + 1)) (drop (i + 1) v)))) b'"
        by (rule 1(1) [OF True s1 refl more p1 1(2,3) le b2(2) jl bound])
      moreover have "take d (drop (Suc i) v) \<noteq> []"
        using d0 d 1(2,3) True by simp
      then have "join_colon (map hex16 (take (idx - i) (drop i v))) =
            ?h @ '':'' @ join_colon (map hex16 (take (idx - (i + 1)) (drop (i + 1) v)))"
        unfolding d dr using d0 by (simp add: join_colon_Cons)
      ultimately show ?thesis using True more b1(1) b2(1) 1(6)
        by (subst emit_head.simps) simp
    qed
  qed
qed

lemma emit_tail_wrote:
  "length v = 8 \<Longrightarrow> wrote b0 t b \<Longrightarrow> j = length t \<Longrightarrow>
   length t + 5 * (8 - i) < length b0 \<Longrightarrow>
   \<exists>b'. emit_tail v b i j =
           Inr (b', length (t @ concat (map (\<lambda>w. CHR '':'' # hex16 w) (drop i v)))) \<and>
        wrote b0 (t @ concat (map (\<lambda>w. CHR '':'' # hex16 w) (drop i v))) b'"
proof (induction v b i j arbitrary: t rule: emit_tail.induct)
  case (1 v b i j)
  show ?case
  proof (cases "i < 8")
    case False
    then show ?thesis using 1(2,3,4) by (subst emit_tail.simps) simp
  next
    case True
    let ?s = "'':'' @ hex16 (v ! i)"
    have hl: "length ?s \<le> 5" using hex_str_u16_length [of "v ! i"] by simp
    from True 1(2) have dr: "drop i v = v ! i # drop (Suc i) v"
      by (simp add: Cons_nth_drop_Suc)
    have fits: "length t + length ?s < length b0" using hl 1(5) True by simp
    from sprintf_wrote [OF 1(3) fits]
    obtain b1 where b1: "sprintf_at b (length t) ?s = Inr (b1, length ?s)"
      "wrote b0 (t @ ?s) b1" by auto
    have s1: "sprintf_at b j ?s = Inr (b1, length ?s)" using b1(1) 1(4) by simp
    have jl: "j + length ?s = length (t @ ?s)" using 1(4) by simp
    have bound: "length (t @ ?s) + 5 * (8 - (i + 1)) < length b0"
      using hl 1(5) True by simp
    have "\<exists>b'. emit_tail v b1 (i + 1) (j + length ?s) =
           Inr (b', length ((t @ ?s) @ concat (map (\<lambda>w. CHR '':'' # hex16 w) (drop (i + 1) v)))) \<and>
        wrote b0 ((t @ ?s) @ concat (map (\<lambda>w. CHR '':'' # hex16 w) (drop (i + 1) v))) b'"
      by (rule 1(1) [OF True s1 refl 1(2) b1(2) jl bound])
    then show ?thesis using True b1(1) 1(4) unfolding dr
      by (subst emit_tail.simps) simp
  qed
qed

lemma emit_rest_plain:
  assumes "wrote b0 t b" "length t < length b0"
  shows "emit_rest v nmax b 8 (length t) = Inr (stored b0 t)"
  using poke_final [OF assms] by (simp add: emit_rest_def)

lemma emit_rest_compressed:
  assumes v: "length v = 8" and w: "wrote b0 t b" and i: "i < 8"
    and fits: "length t + 2 + 5 * (8 - (i + nmax)) < length b0"
  shows "emit_rest v nmax b i (length t) =
           Inr (stored b0 (t @ ''::'' @ join_colon (map hex16 (drop (i + nmax) v))))"
proof -
  let ?ws = "drop (i + nmax) v"
  let ?t1 = "t @ '':''"
  let ?t2 = "?t1 @ concat (map (\<lambda>w. CHR '':'' # hex16 w) ?ws)"
  have f0: "length t < length b0" using fits by simp
  from poke_wrote [OF w f0, of "CHR '':''"]
  obtain b1 where b1: "poke b (length t) CHR '':'' = Inr b1" "wrote b0 ?t1 b1" by auto
  have f1: "length ?t1 + 5 * (8 - (i + nmax)) < length b0" using fits by simp
  from emit_tail_wrote [OF v b1(2) refl f1]
  obtain b2 where b2: "emit_tail v b1 (i + nmax) (length ?t1) = Inr (b2, length ?t2)"
    "wrote b0 ?t2 b2" by auto
  have pk: "peek b2 (length ?t2 - 1) = Inr (last ?t2)"
    by (rule peek_last [OF b2(2)]) simp
  have l2: "length ?t2 < length b0"
  proof (cases "?ws = []")
    case True
    then show ?thesis using fits by simp
  next
    case False
    have "length (join_colon (map hex16 ?ws)) \<le> 5 * length ?ws - 1"
      by (rule join_colon_length)
    then show ?thesis using fits v False by (simp add: tail_text)
  qed
  show ?thesis
  proof (cases "?ws = []")
    case True
    then have t2: "?t2 = ?t1" by simp
    from poke_wrote [OF b2(2) l2, of "CHR '':''"]
    obtain b3 where b3: "poke b2 (length ?t2) CHR '':'' = Inr b3" "wrote b0 (?t2 @ '':'') b3"
      by auto
    have l3: "length (?t2 @ '':'') < length b0" using fits True by simp
    have "poke b3 (length (?t2 @ '':'')) NUL = Inr (stored b0 (?t2 @ '':''))"
      by (rule poke_final [OF b3(2) l3])
    then show ?thesis using i b1(1) b2(1) pk b3(1) True
      by (simp add: emit_rest_def)
  next
    case False
    then have t2: "?t2 = t @ ''::'' @ join_colon (map hex16 ?ws)"
      by (simp add: tail_text)
    have "last ?t2 \<noteq> CHR '':''"
      unfolding t2 using join_colon_last_no_colon [OF False] join_colon_nonempty [OF False]
      by simp
    moreover have "poke b2 (length ?t2) NUL = Inr (stored b0 ?t2)"
      by (rule poke_final [OF b2(2) l2])
    ultimately show ?thesis using i b1(1) b2(1) pk unfolding t2
      by (simp add: emit_rest_def)
  qed
qed

subsection \<open>The text of \<^verbatim>\<open>ip6_2a\<close>\<close>

text \<open>
  With 16 address bytes and 40 characters of buffer, \<^verbatim>\<open>ip6_2a\<close> stores
  \<open>ip6_text\<close> of the hextets. The properties of that text follow.
\<close>

lemma ip6_text_length:
  assumes "length v = 8"
  shows "length (ip6_text v) \<le> 39"
proof -
  from find_zero_block_cases [OF assms] consider
    (none) "find_zero_block v 0 0 8 = (0, 8)" "\<not> (\<exists>s n. zero_run v s n \<and> 2 \<le> n)"
  | (run) nmax idx where "find_zero_block v 0 0 8 = (nmax, idx)" "selected_run v idx nmax"
    by blast
  then show ?thesis
  proof cases
  case none
  then show ?thesis using join_colon_length [of v] assms by (simp add: ip6_text_def compressed_def)
next
  case (run nmax idx)
  from selected_run_bounds [OF run(2)] assms have b: "2 \<le> nmax" "idx + nmax \<le> 8" by simp_all
  have "length (join_colon (map hex16 (take idx v))) \<le> 5 * idx"
    using join_colon_length [of "take idx v"] assms b by simp
  moreover have "length (join_colon (map hex16 (drop (idx + nmax) v))) \<le> 5 * (8 - (idx + nmax))"
    using join_colon_length [of "drop (idx + nmax) v"] assms b by simp
  ultimately show ?thesis using run(1) b by (simp add: ip6_text_def compressed_def)
qed
qed

lemma ip6_2a_hextets:
  assumes v: "length v = 8" and b: "40 \<le> length b"
  shows "(case find_zero_block v 0 0 8 of (nmax, idx) \<Rightarrow>
           (case emit_head v idx b 0 0 of Inl e \<Rightarrow> Inl e
            | Inr (buf1, i, j) \<Rightarrow> emit_rest v nmax buf1 i j)) = Inr (stored b (ip6_text v))"
proof -
  from find_zero_block_cases [OF v] consider
    (none) "find_zero_block v 0 0 8 = (0, 8)" "\<not> (\<exists>s n. zero_run v s n \<and> 2 \<le> n)"
  | (run) nmax idx where "find_zero_block v 0 0 8 = (nmax, idx)" "selected_run v idx nmax"
    by blast
  then show ?thesis
  proof cases
  case none
  have "length [] + 5 * (8 - 0) \<le> length b" using b by simp
  from emit_head_wrote [of v 8 0 b "[]" b 0, OF v _ _ wrote_init _ this]
  obtain b1 where b1: "emit_head v 8 b 0 0 = Inr (b1, 8, length (join_colon (map hex16 v)))"
    "wrote b (join_colon (map hex16 v)) b1" using v by auto
  have "length (join_colon (map hex16 v)) < length b"
    using join_colon_length [of v] v b by simp
  from emit_rest_plain [OF b1(2) this] show ?thesis
    using none(1) b1(1) by (simp add: ip6_text_def compressed_def)
next
  case (run nmax idx)
  from selected_run_bounds [OF run(2)] v have r: "2 \<le> nmax" "idx + nmax \<le> 8" by simp_all
  let ?h = "join_colon (map hex16 (take idx v))"
  have "length [] + 5 * (idx - 0) \<le> length b" using b r by simp
  from emit_head_wrote [of v idx 0 b "[]" b 0, OF v _ _ wrote_init _ this]
  obtain b1 where b1: "emit_head v idx b 0 0 = Inr (b1, idx, length ?h)"
    "wrote b ?h b1" using r by auto
  have "length ?h \<le> 5 * idx" using join_colon_length [of "take idx v"] v r by simp
  then have "length ?h + 2 + 5 * (8 - (idx + nmax)) < length b" using r b by simp
  from emit_rest_compressed [OF v b1(2) _ this] r show ?thesis
    using run(1) b1(1) by (simp add: ip6_text_def compressed_def)
qed
qed

lemma ip6_2a_stores:
  assumes "16 \<le> length a" "40 \<le> length b" "40 \<le> buf_len"
  shows "ip6_2a a b buf_len = Inr (stored b (ip6_text (hextets a)))"
proof -
  from assms(3) have "\<not> buf_len < 40" by simp
  then show ?thesis
    using ip6_2a_hextets [OF hextets_length assms(2), of a] read_hextets_ok [OF assms(1)]
    by (simp add: ip6_2a_def)
qed

lemma ip6_2a_short:
  assumes "length a < 16" "40 \<le> buf_len"
  shows "ip6_2a a b buf_len = Inl Read_Past_End"
proof -
  from assms(2) have g: "\<not> buf_len < 40" by simp
  from read_hextets_short_aux [OF assms(1), of 0] show ?thesis
    using g by (simp add: ip6_2a_def)
qed

lemma ip6_text_chars: "set (ip6_text v) \<subseteq> insert CHR '':'' (set ''0123456789abcdef'')"
proof -
  obtain nmax idx where e: "find_zero_block v 0 0 8 = (nmax, idx)"
    by (cases "find_zero_block v 0 0 8")
  have "set (ip6_text v) \<subseteq>
          set (join_colon (map hex16 v)) \<union> (set (join_colon (map hex16 (take idx v))) \<union>
          (insert CHR '':'' (set (join_colon (map hex16 (drop (idx + nmax) v))))))"
    by (auto simp: ip6_text_def compressed_def e)
  with join_colon_chars [of v] join_colon_chars [of "take idx v"]
      join_colon_chars [of "drop (idx + nmax) v"]
  show ?thesis by blast
qed

lemma ip6_text_no_NUL: "NUL \<notin> set (ip6_text v)"
  using ip6_text_chars [of v] by auto

lemma ip6_2a_c_str:
  assumes "16 \<le> length a" "40 \<le> length b" "40 \<le> buf_len"
  shows "ip6_2a a b buf_len = Inr (stored b (ip6_text (hextets a)))"
    and "c_str (stored b (ip6_text (hextets a))) = ip6_text (hextets a)"
  using ip6_2a_stores [OF assms] c_str_stored [OF ip6_text_no_NUL] by simp_all

lemma ip6_text_selected:
  assumes "length v = 8" "selected_run v s n"
  shows "ip6_text v = compressed v s n"
proof -
  from assms(2) have z: "zero_run v s n" "2 \<le> n" by (simp_all add: selected_run_def)
  with find_zero_block_cases [OF assms(1)]
  obtain nmax idx where r: "find_zero_block v 0 0 8 = (nmax, idx)" "selected_run v idx nmax"
    by blast
  from selected_run_unique [OF r(2) assms(2)] have e: "idx = s" "nmax = n" by simp_all
  from selected_run_bounds [OF assms(2)] assms(1) have "s < 8" by simp
  then show ?thesis using r(1) e by (simp add: ip6_text_def compressed_def)
qed

lemma ip6_text_plain:
  assumes "length v = 8" "no_zero_run v"
  shows "ip6_text v = join_colon (map hex16 v)"
proof -
  have "n < 2" if "zero_run v s n" for s n
  proof -
    from that have "s \<in> set [0..<length v]" "n \<in> set [0..<Suc (length v)]"
      by (auto simp: zero_run_def)
    with assms(2) that show ?thesis unfolding no_zero_run_def by blast
  qed
  then have "\<not> (\<exists>s n. zero_run v s n \<and> 2 \<le> n)" by fastforce
  with find_zero_block_spec(2) [OF assms(1)] show ?thesis by (simp add: ip6_text_def compressed_def)
qed

lemma ip6_text_count:
  "count_dcolon (ip6_text v) \<le> 1"
proof -
  obtain nmax idx where e: "find_zero_block v 0 0 8 = (nmax, idx)"
    by (cases "find_zero_block v 0 0 8")
  show ?thesis
    using compressed_count [of "take idx v" "drop (idx + nmax) v"] join_colon_count [of v]
    by (simp add: ip6_text_def compressed_def e del: append.simps)
qed

lemma ip6_text_isolated_zero:
  assumes v: "length v = 8" and z: "zero_run v k 1"
  shows "\<exists>L R. ip6_text v = L @ ''0'' @ R \<and>
           (if k = 0 then L = [] else \<exists>X. L = X @ hex16 (v ! (k - 1)) @ '':'') \<and>
           (if k = 7 then R = [] else \<exists>Y. R = '':'' @ hex16 (v ! (k + 1)) @ Y)"
    and "case find_zero_block v 0 0 8 of (nmax, idx) \<Rightarrow> k < idx \<or> idx + nmax \<le> k"
proof -
  let ?PL = "\<lambda>L. if k = 0 then L = [] else \<exists>X. L = X @ hex16 (v ! (k - 1)) @ '':''"
  let ?PR = "\<lambda>R. if k = 7 then R = [] else \<exists>Y. R = '':'' @ hex16 (v ! (k + 1)) @ Y"
  from z v have k: "k < 8" "v ! k = 0" by (auto simp: zero_run_def)
  then have h0: "hex16 (v ! k) = ''0''" by (simp add: hex_str_0)
  from find_zero_block_cases [OF v] consider
    (none) "find_zero_block v 0 0 8 = (0, 8)"
  | (run) nmax idx where "find_zero_block v 0 0 8 = (nmax, idx)" "selected_run v idx nmax"
    by blast
  then have "(\<exists>L R. ip6_text v = L @ ''0'' @ R \<and> ?PL L \<and> ?PR R) \<and>
      (case find_zero_block v 0 0 8 of (nmax, idx) \<Rightarrow> k < idx \<or> idx + nmax \<le> k)"
  proof cases
    case none
    have t: "ip6_text v = join_colon (map hex16 (take (8 - 0) (drop 0 v)))"
      using none v by (simp add: ip6_text_def)
    have "0 \<le> k" "k < 8" "8 \<le> length v" using k v by simp_all
    from join_colon_segment [OF this]
    obtain L R where lr:
      "join_colon (map hex16 (take (8 - 0) (drop 0 v))) = L @ hex16 (v ! k) @ R"
      "if k = 0 then L = [] else \<exists>X. L = X @ hex16 (v ! (k - 1)) @ '':''"
      "if Suc k = 8 then R = [] else \<exists>Y. R = '':'' @ hex16 (v ! Suc k) @ Y"
      by blast
    have e: "ip6_text v = L @ ''0'' @ R" using lr(1) unfolding t h0 .
    have pr: "?PR R" using lr(3) by (cases "k = 7") auto
    have c: "case find_zero_block v 0 0 8 of (nmax, idx) \<Rightarrow> k < idx \<or> idx + nmax \<le> k"
      using none k by simp
    show ?thesis
      by (intro conjI, rule exI [of _ L], rule exI [of _ R], intro conjI) (rule e lr(2) pr c)+
  next
    case (run nmax idx)
    from selected_run_bounds [OF run(2)] v have b: "2 \<le> nmax" "idx + nmax \<le> 8" by simp_all
    then have i8: "idx < 8" by simp
    have t: "ip6_text v = join_colon (map hex16 (take idx v)) @ ''::'' @
               join_colon (map hex16 (drop (idx + nmax) v))"
      using run(1) i8 by (simp add: ip6_text_def compressed_def)
    from isolated_zero_outside [OF z run(2)] show ?thesis
    proof
      assume lt: "Suc k < idx"
      have "0 \<le> k" "k < idx" "idx \<le> length v" using lt b v by simp_all
      from join_colon_segment [OF this]
      obtain L R where lr:
        "join_colon (map hex16 (take (idx - 0) (drop 0 v))) = L @ hex16 (v ! k) @ R"
        "if k = 0 then L = [] else \<exists>X. L = X @ hex16 (v ! (k - 1)) @ '':''"
        "if Suc k = idx then R = [] else \<exists>Y. R = '':'' @ hex16 (v ! Suc k) @ Y"
        by blast
      from lr(3) lt obtain Y where y: "R = '':'' @ hex16 (v ! Suc k) @ Y" by auto
      let ?R = "R @ ''::'' @ join_colon (map hex16 (drop (idx + nmax) v))"
      have j: "join_colon (map hex16 (take idx v)) = L @ ''0'' @ R"
        using lr(1) unfolding h0 by simp
      have e: "ip6_text v = L @ ''0'' @ ?R" unfolding t j by simp
      have ex: "\<exists>Y'. ?R = '':'' @ hex16 (v ! (k + 1)) @ Y'"
        unfolding y
        by (rule exI [of _ "Y @ ''::'' @ join_colon (map hex16 (drop (idx + nmax) v))"]) simp
      have k7: "k \<noteq> 7" using lt i8 by simp
      have pr: "?PR ?R" unfolding if_not_P [OF k7] by (rule ex)
      have c: "case find_zero_block v 0 0 8 of (nmax, idx) \<Rightarrow> k < idx \<or> idx + nmax \<le> k"
        using run(1) lt by simp
      show ?thesis
      by (intro conjI, rule exI [of _ L], rule exI [of _ "?R"], intro conjI) (rule e lr(2) pr c)+
    next
      assume gt: "idx + nmax < k"
      have "idx + nmax \<le> k" "k < 8" "8 \<le> length v" using gt k v by simp_all
      from join_colon_segment [OF this]
      obtain L R where lr:
        "join_colon (map hex16 (take (8 - (idx + nmax)) (drop (idx + nmax) v))) =
           L @ hex16 (v ! k) @ R"
        "if k = idx + nmax then L = [] else \<exists>X. L = X @ hex16 (v ! (k - 1)) @ '':''"
        "if Suc k = 8 then R = [] else \<exists>Y. R = '':'' @ hex16 (v ! Suc k) @ Y"
        by blast
      from lr(2) gt obtain X where x: "L = X @ hex16 (v ! (k - 1)) @ '':''" by auto
      let ?L = "join_colon (map hex16 (take idx v)) @ ''::'' @ L"
      have "take (8 - (idx + nmax)) (drop (idx + nmax) v) = drop (idx + nmax) v"
        using v by simp
      then have j: "join_colon (map hex16 (drop (idx + nmax) v)) = L @ ''0'' @ R"
        using lr(1) unfolding h0 by simp
      have e: "ip6_text v = ?L @ ''0'' @ R" unfolding t j by simp
      have ex: "\<exists>X'. ?L = X' @ hex16 (v ! (k - 1)) @ '':''"
        unfolding x
        by (rule exI [of _ "join_colon (map hex16 (take idx v)) @ ''::'' @ X"]) simp
      have k0: "k \<noteq> 0" using gt by simp
      have pl: "?PL ?L" unfolding if_not_P [OF k0] by (rule ex)
      have pr: "?PR R" using lr(3) by (cases "k = 7") auto
      have c: "case find_zero_block v 0 0 8 of (nmax, idx) \<Rightarrow> k < idx \<or> idx + nmax \<le> k"
        using run(1) gt by simp
      show ?thesis
      by (intro conjI, rule exI [of _ "?L"], rule exI [of _ R], intro conjI) (rule e pl pr c)+
    qed
  qed
  then show "\<exists>L R. ip6_text v = L @ ''0'' @ R \<and>
           (if k = 0 then L = [] else \<exists>X. L = X @ hex16 (v ! (k - 1)) @ '':'') \<and>
           (if k = 7 then R = [] else \<exists>Y. R = '':'' @ hex16 (v ! (k + 1)) @ Y)"
    and "case find_zero_block v 0 0 8 of (nmax, idx) \<Rightarrow> k < idx \<or> idx + nmax \<le> k"
    by (rule conjunct1, rule conjunct2)
qed

lemmas ip6_eval = ip6_text_def compressed_def find_zero_block.simps zero_block_end.simps
  hex_str.simps digit_char_def

lemma ip6_text_ex_tie:
  "ip6_text (hextets [0, 0, 0, 0, 0, 1, 0, 0, 0, 0, 0, 1, 0, 1, 0, 1]) = ''::1:0:0:1:1:1''"
  by (simp add: hextets_bytes ip6_eval)

lemma ip6_text_ex_zero:
  "ip6_text (hextets [0, 0, 0, 0, 0, 0, 0, 0, 0, 0, 0, 0, 0, 0, 0, 0]) = ''::''"
  by (simp add: hextets_bytes ip6_eval)

lemma ip6_text_ex_end:
  "ip6_text (hextets [0, 1, 0, 2, 0, 3, 0, 4, 0, 5, 0, 0, 0, 0, 0, 0]) = ''1:2:3:4:5::''"
  by (simp add: hextets_bytes ip6_eval)

lemma ip6_text_ex_single:
  "ip6_text (hextets [0, 1, 0, 0, 0, 2, 0, 3, 0, 4, 0, 5, 0, 6, 0, 7]) = ''1:0:2:3:4:5:6:7''"
  by (simp add: hextets_bytes ip6_eval)

lemma ip6_text_ex_ff:
  "ip6_text (hextets [0xff, 0xff, 0xff, 0xff, 0xff, 0xff, 0xff, 0xff,
                      0xff, 0xff, 0xff, 0xff, 0xff, 0xff, 0xff, 0xff]) =
     ''ffff:ffff:ffff:ffff:ffff:ffff:ffff:ffff''"
  by (simp add: hextets_bytes ip6_eval)

subsection \<open>The text of \<^verbatim>\<open>ip4_2a\<close>\<close>

lemma ip4_text_length: "length (ip4_text a) \<le> 15"
  using dec_str_u8_length [of "a ! 0"] dec_str_u8_length [of "a ! 1"]
    dec_str_u8_length [of "a ! 2"] dec_str_u8_length [of "a ! 3"]
  by (simp add: ip4_text_def)

lemma ip4_2a_stores:
  assumes "4 \<le> length a" "16 \<le> length b" "16 \<le> buf_len"
  shows "ip4_2a a b buf_len = Inr (stored b (ip4_text a))"
proof -
  from assms(3) have g: "\<not> buf_len < 16" by simp
  have "length (ip4_text a) < length b" using ip4_text_length [of a] assms(2) by simp
  from sprintf_at_start [OF this]
  have s: "sprintf_at b 0 (ip4_text a) = Inr (stored b (ip4_text a), length (ip4_text a))" .
  have p: "peek a 0 = Inr (a ! 0)" "peek a 1 = Inr (a ! 1)" "peek a 2 = Inr (a ! 2)"
    "peek a 3 = Inr (a ! 3)"
    using assms(1) by (auto simp: peek_def)
  show ?thesis
    unfolding ip4_2a_def p using g s by (simp add: ip4_text_def)
qed

lemma ip4_2a_short:
  assumes "length a < 4" "16 \<le> buf_len"
  shows "ip4_2a a b buf_len = Inl Read_Past_End"
proof -
  from assms(2) have g: "\<not> buf_len < 16" by simp
  from assms(1) consider "length a = 0" | "length a = 1" | "length a = 2" | "length a = 3"
    by linarith
  then show ?thesis
    by cases (simp_all add: ip4_2a_def peek_def g)
qed

lemma ip4_text_take: "4 \<le> length a \<Longrightarrow> ip4_text (take 4 a) = ip4_text a"
  by (simp add: ip4_text_def)

section \<open>The claims of the specification\<close>

text \<open>
  In the theorems below \<open>buf\<close> is the caller's buffer as it is before the call,
  \<open>length buf\<close> the number of characters it really has and \<open>buf_len\<close> the
  capacity passed to the function. A result \<open>Inr (stored buf t)\<close> says that the
  function returns, having accessed nothing outside the address and the buffer, and
  leaves the C string \<open>t\<close> at the start of the buffer.
\<close>

text \<open>
  C1: when two or more zero runs of length at least 2 tie for the longest length, the
  formatter compresses the one with the smallest starting index. Here \<open>(s, n)\<close>
  is the run the specification selects (a longest one, the earliest of them) and
  \<open>s'\<close> the start of another run of the same length: the run at \<open>s\<close> is the
  earlier one, and the buffer holds the text with that run replaced by the double
  colon. In particular the address with the hextets 0, 0, 1, 0, 0, 1, 1, 1 is
  formatted as \<^verbatim>\<open>::1:0:0:1:1:1\<close>: the search returns the block of 2 hextets
  at index 0.
\<close>

theorem ip6_2a_tie_earliest_run:
  assumes "40 \<le> length buf" and "40 \<le> buf_len"
  shows "(length a = 16 \<and> selected_run (hextets a) s n \<and>
          zero_run (hextets a) s' n \<and> s' \<noteq> s \<longrightarrow>
            s < s' \<and>
            ip6_2a a buf buf_len = Inr (stored buf (compressed (hextets a) s n)) \<and>
            c_str (stored buf (compressed (hextets a) s n)) = compressed (hextets a) s n) \<and>
         ip6_2a [0, 0, 0, 0, 0, 1, 0, 0, 0, 0, 0, 1, 0, 1, 0, 1] buf buf_len =
           Inr (stored buf ''::1:0:0:1:1:1'') \<and>
         find_zero_block (hextets [0, 0, 0, 0, 0, 1, 0, 0, 0, 0, 0, 1, 0, 1, 0, 1]) 0 0 8 = (2, 0)"
proof (intro conjI impI)
  show "ip6_2a [0, 0, 0, 0, 0, 1, 0, 0, 0, 0, 0, 1, 0, 1, 0, 1] buf buf_len =
           Inr (stored buf ''::1:0:0:1:1:1'')"
    using ip6_2a_c_str(1) [OF _ assms, of "[0, 0, 0, 0, 0, 1, 0, 0, 0, 0, 0, 1, 0, 1, 0, 1]"]
    by (simp add: ip6_text_ex_tie)
  show "find_zero_block (hextets [0, 0, 0, 0, 0, 1, 0, 0, 0, 0, 0, 1, 0, 1, 0, 1]) 0 0 8 = (2, 0)"
    by (simp add: hextets_bytes find_zero_block.simps zero_block_end.simps)
next
  assume h: "length a = 16 \<and> selected_run (hextets a) s n \<and>
          zero_run (hextets a) s' n \<and> s' \<noteq> s"
  then have a: "16 \<le> length a" by simp
  from h have t: "ip6_text (hextets a) = compressed (hextets a) s n"
    by (intro ip6_text_selected hextets_length) simp
  from h show "s < s'" unfolding selected_run_iff by (metis le_neq_implies_less less_irrefl_nat)
  show "ip6_2a a buf buf_len = Inr (stored buf (compressed (hextets a) s n))"
    using ip6_2a_c_str(1) [OF a assms] t by simp
  show "c_str (stored buf (compressed (hextets a) s n)) = compressed (hextets a) s n"
    using ip6_2a_c_str(2) [OF a assms] t by simp
qed

theorem ip6_2a_tie_earliest_run_witness:
  "40 \<le> length (replicate 40 CHR ''x'') \<and> (40 :: u32) \<le> 40 \<and>
   length [0, 0, 0, 0, 0, 1, 0, 0, 0, 0, 0, 1, 0, 1, 0, 1 :: u8] = 16 \<and>
   selected_run (hextets [0, 0, 0, 0, 0, 1, 0, 0, 0, 0, 0, 1, 0, 1, 0, 1]) 0 2 \<and>
   zero_run (hextets [0, 0, 0, 0, 0, 1, 0, 0, 0, 0, 0, 1, 0, 1, 0, 1]) 3 2 \<and>
   ip6_2a [0, 0, 0, 0, 0, 1, 0, 0, 0, 0, 0, 1, 0, 1, 0, 1] (replicate 40 CHR ''x'') 40 =
     Inr (stored (replicate 40 CHR ''x'')
            (compressed (hextets [0, 0, 0, 0, 0, 1, 0, 0, 0, 0, 0, 1, 0, 1, 0, 1]) 0 2)) \<and>
   compressed (hextets [0, 0, 0, 0, 0, 1, 0, 0, 0, 0, 0, 1, 0, 1, 0, 1]) 0 2 = ''::1:0:0:1:1:1''"
proof -
  let ?a = "[0, 0, 0, 0, 0, 1, 0, 0, 0, 0, 0, 1, 0, 1, 0, 1 :: u8]"
  have b: "40 \<le> length (replicate 40 CHR ''x'')" "(40 :: u32) \<le> 40" by simp_all
  have h: "length ?a = 16" "selected_run (hextets ?a) 0 2" "zero_run (hextets ?a) 3 2"
    by (simp, code_simp, code_simp)
  have c: "compressed (hextets ?a) 0 2 = ''::1:0:0:1:1:1''"
    by (simp add: compressed_def hextets_bytes hex_str.simps digit_char_def)
  from ip6_2a_tie_earliest_run [OF b, of ?a 0 2 3] h
  have "ip6_2a ?a (replicate 40 CHR ''x'') 40 =
     Inr (stored (replicate 40 CHR ''x'') (compressed (hextets ?a) 0 2))" by simp
  with b h c show ?thesis by blast
qed

text \<open>
  C2: the all-zero address is formatted as the two characters \<^verbatim>\<open>::\<close>, although
  the block found by the search starts at hextet 0 and has all 8 hextets.
\<close>

theorem ip6_2a_all_zero:
  assumes "40 \<le> length buf" and "40 \<le> buf_len"
  shows "ip6_2a [0, 0, 0, 0, 0, 0, 0, 0, 0, 0, 0, 0, 0, 0, 0, 0] buf buf_len =
           Inr (stored buf ''::'') \<and>
         c_str (stored buf ''::'') = ''::'' \<and>
         find_zero_block (hextets [0, 0, 0, 0, 0, 0, 0, 0, 0, 0, 0, 0, 0, 0, 0, 0]) 0 0 8 = (8, 0)"
proof (intro conjI)
  show "ip6_2a [0, 0, 0, 0, 0, 0, 0, 0, 0, 0, 0, 0, 0, 0, 0, 0] buf buf_len =
           Inr (stored buf ''::'')"
    using ip6_2a_c_str(1) [OF _ assms, of "[0, 0, 0, 0, 0, 0, 0, 0, 0, 0, 0, 0, 0, 0, 0, 0]"]
    by (simp add: ip6_text_ex_zero)
  show "c_str (stored buf ''::'') = ''::''"
    by (rule c_str_stored) simp
  show "find_zero_block (hextets [0, 0, 0, 0, 0, 0, 0, 0, 0, 0, 0, 0, 0, 0, 0, 0]) 0 0 8 = (8, 0)"
    by (simp add: hextets_bytes find_zero_block.simps zero_block_end.simps)
qed

theorem ip6_2a_all_zero_witness:
  "40 \<le> length (replicate 40 CHR ''x'') \<and> (40 :: u32) \<le> 40 \<and>
   ip6_2a [0, 0, 0, 0, 0, 0, 0, 0, 0, 0, 0, 0, 0, 0, 0, 0] (replicate 40 CHR ''x'') 40 =
     Inr (''::'' @ NUL # replicate 37 CHR ''x'')"
proof -
  have b: "40 \<le> length (replicate 40 CHR ''x'')" "(40 :: u32) \<le> 40" by simp_all
  have "stored (replicate 40 CHR ''x'') ''::'' = ''::'' @ NUL # replicate 37 CHR ''x''"
    by (simp add: stored_def)
  with ip6_2a_all_zero [OF b] b show ?thesis by simp
qed

text \<open>
  C3: when the compressed run extends to the last hextet (\<open>s + n = 8\<close>), the text
  is the hextets before the run followed by two colons, and it ends with two colons
  and not three. In particular the address with the hextets 1, 2, 3, 4, 5, 0, 0, 0 is
  formatted as \<^verbatim>\<open>1:2:3:4:5::\<close>.
\<close>

theorem ip6_2a_run_to_end:
  assumes "40 \<le> length buf" and "40 \<le> buf_len"
  shows "(length a = 16 \<and> selected_run (hextets a) s n \<and> s + n = 8 \<longrightarrow>
            ip6_2a a buf buf_len =
              Inr (stored buf (join_colon (map hex16 (take s (hextets a))) @ ''::'')) \<and>
            c_str (stored buf (join_colon (map hex16 (take s (hextets a))) @ ''::'')) =
              join_colon (map hex16 (take s (hextets a))) @ ''::'' \<and>
            ends_with_two_colons (join_colon (map hex16 (take s (hextets a))) @ ''::'')) \<and>
         ip6_2a [0, 1, 0, 2, 0, 3, 0, 4, 0, 5, 0, 0, 0, 0, 0, 0] buf buf_len =
           Inr (stored buf ''1:2:3:4:5::'')"
proof (intro conjI impI)
  show "ip6_2a [0, 1, 0, 2, 0, 3, 0, 4, 0, 5, 0, 0, 0, 0, 0, 0] buf buf_len =
           Inr (stored buf ''1:2:3:4:5::'')"
    using ip6_2a_c_str(1) [OF _ assms, of "[0, 1, 0, 2, 0, 3, 0, 4, 0, 5, 0, 0, 0, 0, 0, 0]"]
    by (simp add: ip6_text_ex_end)
next
  let ?v = "hextets a"
  let ?t = "join_colon (map hex16 (take s ?v)) @ ''::''"
  assume h: "length a = 16 \<and> selected_run ?v s n \<and> s + n = 8"
  then have a: "16 \<le> length a" by simp
  from h have "ip6_text ?v = compressed ?v s n"
    by (intro ip6_text_selected hextets_length) simp
  with h have t: "ip6_text ?v = ?t" by (simp add: compressed_def hextets_length)
  show "ip6_2a a buf buf_len = Inr (stored buf ?t)"
    using ip6_2a_c_str(1) [OF a assms] t by simp
  show "c_str (stored buf ?t) = ?t"
    using ip6_2a_c_str(2) [OF a assms] t by simp
  show "ends_with_two_colons ?t"
  proof (cases "take s ?v = []")
    case True
    have "join_colon (map hex16 (take s ?v)) = []" unfolding True by simp
    then show ?thesis unfolding ends_with_two_colons_append by simp
  next
    case False
    from join_colon_last_no_colon [OF False] show ?thesis
      unfolding ends_with_two_colons_append by simp
  qed
qed

theorem ip6_2a_run_to_end_witness:
  "40 \<le> length (replicate 40 CHR ''x'') \<and> (40 :: u32) \<le> 40 \<and>
   length [0, 1, 0, 2, 0, 3, 0, 4, 0, 5, 0, 0, 0, 0, 0, 0 :: u8] = 16 \<and>
   selected_run (hextets [0, 1, 0, 2, 0, 3, 0, 4, 0, 5, 0, 0, 0, 0, 0, 0]) 5 3 \<and>
   (5 :: nat) + 3 = 8 \<and>
   ip6_2a [0, 1, 0, 2, 0, 3, 0, 4, 0, 5, 0, 0, 0, 0, 0, 0] (replicate 40 CHR ''x'') 40 =
     Inr (stored (replicate 40 CHR ''x'') ''1:2:3:4:5::'') \<and>
   ends_with_two_colons ''1:2:3:4:5::''"
proof -
  let ?a = "[0, 1, 0, 2, 0, 3, 0, 4, 0, 5, 0, 0, 0, 0, 0, 0 :: u8]"
  have b: "40 \<le> length (replicate 40 CHR ''x'')" "(40 :: u32) \<le> 40" by simp_all
  have h: "length ?a = 16" "selected_run (hextets ?a) 5 3" "(5 :: nat) + 3 = 8"
    by (simp, code_simp, simp)
  have c: "join_colon (map hex16 (take 5 (hextets ?a))) @ ''::'' = ''1:2:3:4:5::''"
    by (simp add: hextets_bytes hex_str.simps digit_char_def)
  from ip6_2a_run_to_end [OF b, of ?a 5 3] h
  have "ip6_2a ?a (replicate 40 CHR ''x'') 40 =
          Inr (stored (replicate 40 CHR ''x'')
                 (join_colon (map hex16 (take 5 (hextets ?a))) @ ''::''))"
    and "ends_with_two_colons (join_colon (map hex16 (take 5 (hextets ?a))) @ ''::'')"
    by simp_all
  with b h show ?thesis unfolding c by blast
qed

text \<open>
  C4, as amended: a zero run of length 1 is never compressed. When hextet \<open>k\<close> is
  zero and its neighbours are not (\<open>zero_run (hextets a) k 1\<close>), the text is
  \<open>L\<close>, the character \<^verbatim>\<open>0\<close>, \<open>R\<close>, with one colon between the
  \<^verbatim>\<open>0\<close> and the digits of each neighbour the hextet has: \<open>L\<close> ends with the
  digits of hextet \<open>k - 1\<close> and one colon, and is empty for \<open>k = 0\<close>, where the
  text starts with the \<^verbatim>\<open>0\<close>; \<open>R\<close> starts with one colon and the digits of
  hextet \<open>k + 1\<close>, and is empty for \<open>k = 7\<close>, where the text ends with the
  \<^verbatim>\<open>0\<close>. For \<open>k\<close> from 1 to 6 the \<^verbatim>\<open>0\<close> is between two single colons.
  In every case \<open>k\<close> is outside the block the search has found. In particular the
  address with the hextets 1, 0, 2, 3, 4, 5, 6, 7 is formatted as
  \<^verbatim>\<open>1:0:2:3:4:5:6:7\<close>.
\<close>

theorem ip6_2a_isolated_zero:
  assumes "40 \<le> length buf" and "40 \<le> buf_len"
  shows "(length a = 16 \<and> zero_run (hextets a) k 1 \<longrightarrow>
            (\<exists>L R. ip6_2a a buf buf_len = Inr (stored buf (L @ ''0'' @ R)) \<and>
               c_str (stored buf (L @ ''0'' @ R)) = L @ ''0'' @ R \<and>
               (if k = 0 then L = [] else \<exists>X. L = X @ hex16 (hextets a ! (k - 1)) @ '':'') \<and>
               (if k = 7 then R = [] else \<exists>Y. R = '':'' @ hex16 (hextets a ! (k + 1)) @ Y) \<and>
               (0 < k \<and> k < 7 \<longrightarrow> has_infix '':0:'' (L @ ''0'' @ R))) \<and>
            (case find_zero_block (hextets a) 0 0 8 of (nmax, idx) \<Rightarrow>
               k < idx \<or> idx + nmax \<le> k)) \<and>
         ip6_2a [0, 1, 0, 0, 0, 2, 0, 3, 0, 4, 0, 5, 0, 6, 0, 7] buf buf_len =
           Inr (stored buf ''1:0:2:3:4:5:6:7'')"
proof (intro conjI impI)
  show "ip6_2a [0, 1, 0, 0, 0, 2, 0, 3, 0, 4, 0, 5, 0, 6, 0, 7] buf buf_len =
           Inr (stored buf ''1:0:2:3:4:5:6:7'')"
    using ip6_2a_c_str(1) [OF _ assms, of "[0, 1, 0, 0, 0, 2, 0, 3, 0, 4, 0, 5, 0, 6, 0, 7]"]
    by (simp add: ip6_text_ex_single)
next
  let ?v = "hextets a"
  assume h: "length a = 16 \<and> zero_run ?v k 1"
  then have a: "16 \<le> length a" and z: "zero_run ?v k 1" by simp_all
  from ip6_text_isolated_zero(2) [OF hextets_length z]
  show "case find_zero_block ?v 0 0 8 of (nmax, idx) \<Rightarrow> k < idx \<or> idx + nmax \<le> k" .
  from ip6_text_isolated_zero(1) [OF hextets_length z]
  obtain L R where lr: "ip6_text ?v = L @ ''0'' @ R"
    "if k = 0 then L = [] else \<exists>X. L = X @ hex16 (?v ! (k - 1)) @ '':''"
    "if k = 7 then R = [] else \<exists>Y. R = '':'' @ hex16 (?v ! (k + 1)) @ Y"
    by blast
  have e: "ip6_2a a buf buf_len = Inr (stored buf (L @ ''0'' @ R))"
    using ip6_2a_c_str(1) [OF a assms] unfolding lr(1) .
  have c: "c_str (stored buf (L @ ''0'' @ R)) = L @ ''0'' @ R"
    using ip6_2a_c_str(2) [OF a assms] unfolding lr(1) .
  have i: "0 < k \<and> k < 7 \<longrightarrow> has_infix '':0:'' (L @ ''0'' @ R)"
  proof
    assume k: "0 < k \<and> k < 7"
    with lr(2) obtain X where x: "L = X @ hex16 (?v ! (k - 1)) @ '':''" by auto
    from k lr(3) obtain Y where y: "R = '':'' @ hex16 (?v ! (k + 1)) @ Y" by auto
    have "L @ ''0'' @ R =
            (X @ hex16 (?v ! (k - 1))) @ '':0:'' @ (hex16 (?v ! (k + 1)) @ Y)"
      unfolding x y by simp
    then show "has_infix '':0:'' (L @ ''0'' @ R)"
      by (simp only: has_infix_append)
  qed
  show "\<exists>L R. ip6_2a a buf buf_len = Inr (stored buf (L @ ''0'' @ R)) \<and>
               c_str (stored buf (L @ ''0'' @ R)) = L @ ''0'' @ R \<and>
               (if k = 0 then L = [] else \<exists>X. L = X @ hex16 (?v ! (k - 1)) @ '':'') \<and>
               (if k = 7 then R = [] else \<exists>Y. R = '':'' @ hex16 (?v ! (k + 1)) @ Y) \<and>
               (0 < k \<and> k < 7 \<longrightarrow> has_infix '':0:'' (L @ ''0'' @ R))"
    by (rule exI [of _ L], rule exI [of _ R], intro conjI) (rule e c lr(2) lr(3) i)+
qed

theorem ip6_2a_isolated_zero_witness:
  "40 \<le> length (replicate 40 CHR ''x'') \<and> (40 :: u32) \<le> 40 \<and>
   length [0, 1, 0, 0, 0, 2, 0, 0, 0, 0, 0, 5, 0, 6, 0, 7 :: u8] = 16 \<and>
   zero_run (hextets [0, 1, 0, 0, 0, 2, 0, 0, 0, 0, 0, 5, 0, 6, 0, 7]) 1 1 \<and>
   (0 :: nat) < 1 \<and> (1 :: nat) < 7 \<and>
   (\<exists>L R. ip6_2a [0, 1, 0, 0, 0, 2, 0, 0, 0, 0, 0, 5, 0, 6, 0, 7]
             (replicate 40 CHR ''x'') 40 =
           Inr (stored (replicate 40 CHR ''x'') (L @ ''0'' @ R)) \<and>
           (\<exists>X. L = X @ ''1'' @ '':'') \<and> (\<exists>Y. R = '':'' @ ''2'' @ Y) \<and>
           has_infix '':0:'' (L @ ''0'' @ R)) \<and>
   find_zero_block (hextets [0, 1, 0, 0, 0, 2, 0, 0, 0, 0, 0, 5, 0, 6, 0, 7]) 0 0 8 = (2, 3) \<and>
   ip6_2a [0, 1, 0, 0, 0, 2, 0, 0, 0, 0, 0, 5, 0, 6, 0, 7] (replicate 40 CHR ''x'') 40 =
     Inr (''1:0:2::5:6:7'' @ NUL # replicate 27 CHR ''x'')"
proof -
  let ?a = "[0, 1, 0, 0, 0, 2, 0, 0, 0, 0, 0, 5, 0, 6, 0, 7 :: u8]"
  let ?b = "replicate 40 CHR ''x''"
  have b: "40 \<le> length ?b" "(40 :: u32) \<le> 40" by simp_all
  have h: "length ?a = 16" "zero_run (hextets ?a) 1 1" by (simp, code_simp)
  have n: "hex16 (hextets ?a ! (1 - 1)) = ''1''" "hex16 (hextets ?a ! (1 + 1)) = ''2''"
    by (simp_all add: hextets_bytes hex_str.simps digit_char_def)
  have f: "find_zero_block (hextets ?a) 0 0 8 = (2, 3)"
    by (simp add: hextets_bytes find_zero_block.simps zero_block_end.simps)
  have e: "ip6_2a ?a ?b 40 = Inr (''1:0:2::5:6:7'' @ NUL # replicate 27 CHR ''x'')"
    using ip6_2a_c_str(1) [of ?a ?b 40]
    by (simp add: hextets_bytes ip6_eval stored_def)
  from ip6_2a_isolated_zero [OF b, of ?a 1] h
  have "\<exists>L R. ip6_2a ?a ?b 40 = Inr (stored ?b (L @ ''0'' @ R)) \<and>
           (\<exists>X. L = X @ hex16 (hextets ?a ! (1 - 1)) @ '':'') \<and>
           (\<exists>Y. R = '':'' @ hex16 (hextets ?a ! (1 + 1)) @ Y) \<and>
           has_infix '':0:'' (L @ ''0'' @ R)"
    by simp blast
  moreover have "(0 :: nat) < 1" "(1 :: nat) < 7" by simp_all
  ultimately show ?thesis using b h f e unfolding n by blast
qed

text \<open>
  C4 as the specification states it fails for an isolated zero in the first hextet
  (and in the same way in the last): the address with the hextets
  0, 1, 2, 3, 4, 5, 6, 7 is formatted as \<^verbatim>\<open>0:1:2:3:4:5:6:7\<close>, where no
  \<^verbatim>\<open>0\<close> is between two colons.
\<close>

theorem ip6_2a_isolated_zero_counterexample:
  "zero_run (hextets [0, 0, 0, 1, 0, 2, 0, 3, 0, 4, 0, 5, 0, 6, 0, 7]) 0 1 \<and>
   ip6_2a [0, 0, 0, 1, 0, 2, 0, 3, 0, 4, 0, 5, 0, 6, 0, 7] (replicate 40 CHR ''x'') 40 =
     Inr (''0:1:2:3:4:5:6:7'' @ NUL # replicate 24 CHR ''x'') \<and>
   \<not> has_infix '':0:'' ''0:1:2:3:4:5:6:7''"
proof (intro conjI)
  let ?a = "[0, 0, 0, 1, 0, 2, 0, 3, 0, 4, 0, 5, 0, 6, 0, 7 :: u8]"
  show "zero_run (hextets ?a) 0 1" by code_simp
  show "ip6_2a ?a (replicate 40 CHR ''x'') 40 =
     Inr (''0:1:2:3:4:5:6:7'' @ NUL # replicate 24 CHR ''x'')"
    using ip6_2a_c_str(1) [of ?a "replicate 40 CHR ''x''" 40]
    by (simp add: hextets_bytes ip6_eval stored_def)
  show "\<not> has_infix '':0:'' ''0:1:2:3:4:5:6:7''" by simp
qed

text \<open>
  C5: when the address has no run of two or more zero hextets, the text is the 8
  hextets joined by single colons, with no double colon. Every hextet is rendered
  in the digits \<^verbatim>\<open>0123456789abcdef\<close>, with at least one digit, without a leading
  zero unless it is 0, and the digits read in base 16 give its value. In particular
  the address of 16 bytes 0xff is formatted as
  \<^verbatim>\<open>ffff:ffff:ffff:ffff:ffff:ffff:ffff:ffff\<close>.
\<close>

theorem ip6_2a_no_compression:
  assumes "40 \<le> length buf" and "40 \<le> buf_len"
  shows "(length a = 16 \<and> no_zero_run (hextets a) \<longrightarrow>
            ip6_2a a buf buf_len = Inr (stored buf (join_colon (map hex16 (hextets a)))) \<and>
            c_str (stored buf (join_colon (map hex16 (hextets a)))) =
              join_colon (map hex16 (hextets a)) \<and>
            count_dcolon (join_colon (map hex16 (hextets a))) = 0) \<and>
         (\<forall>w. set (hex16 w) \<subseteq> set ''0123456789abcdef'' \<and> hex16 w \<noteq> [] \<and>
              (w \<noteq> 0 \<longrightarrow> hd (hex16 w) \<noteq> CHR ''0'') \<and> digits_val 16 (hex16 w) = unat w) \<and>
         ip6_2a [0xff, 0xff, 0xff, 0xff, 0xff, 0xff, 0xff, 0xff,
                 0xff, 0xff, 0xff, 0xff, 0xff, 0xff, 0xff, 0xff] buf buf_len =
           Inr (stored buf ''ffff:ffff:ffff:ffff:ffff:ffff:ffff:ffff'')"
proof (intro conjI impI allI)
  show "ip6_2a [0xff, 0xff, 0xff, 0xff, 0xff, 0xff, 0xff, 0xff,
                 0xff, 0xff, 0xff, 0xff, 0xff, 0xff, 0xff, 0xff] buf buf_len =
           Inr (stored buf ''ffff:ffff:ffff:ffff:ffff:ffff:ffff:ffff'')"
    using ip6_2a_c_str(1) [OF _ assms, of "[0xff, 0xff, 0xff, 0xff, 0xff, 0xff, 0xff, 0xff,
                 0xff, 0xff, 0xff, 0xff, 0xff, 0xff, 0xff, 0xff]"]
    by (simp add: ip6_text_ex_ff)
next
  fix w :: u16
  show "set (hex16 w) \<subseteq> set ''0123456789abcdef''" by (rule hex_str_chars)
  show "hex16 w \<noteq> []" by (rule hex_str_nonempty)
  show "digits_val 16 (hex16 w) = unat w" by (rule hex_str_value)
  show "hd (hex16 w) \<noteq> CHR ''0''" if "w \<noteq> 0"
    using that by (intro hex_str_hd) (simp add: unsigned_eq_0_iff)
next
  let ?v = "hextets a"
  assume h: "length a = 16 \<and> no_zero_run ?v"
  then have a: "16 \<le> length a" by simp
  from h have t: "ip6_text ?v = join_colon (map hex16 ?v)"
    by (intro ip6_text_plain hextets_length) simp
  show "ip6_2a a buf buf_len = Inr (stored buf (join_colon (map hex16 ?v)))"
    using ip6_2a_c_str(1) [OF a assms] t by simp
  show "c_str (stored buf (join_colon (map hex16 ?v))) = join_colon (map hex16 ?v)"
    using ip6_2a_c_str(2) [OF a assms] t by simp
  show "count_dcolon (join_colon (map hex16 ?v)) = 0" by (rule join_colon_count)
qed

theorem ip6_2a_no_compression_witness:
  "40 \<le> length (replicate 40 CHR ''x'') \<and> (40 :: u32) \<le> 40 \<and>
   length [0x20, 0x01, 0x0d, 0xb8, 0, 1, 0, 0, 0, 2, 0, 3, 0, 0, 0, 4 :: u8] = 16 \<and>
   no_zero_run (hextets [0x20, 0x01, 0x0d, 0xb8, 0, 1, 0, 0, 0, 2, 0, 3, 0, 0, 0, 4]) \<and>
   ip6_2a [0x20, 0x01, 0x0d, 0xb8, 0, 1, 0, 0, 0, 2, 0, 3, 0, 0, 0, 4]
       (replicate 40 CHR ''x'') 40 =
     Inr (stored (replicate 40 CHR ''x'') ''2001:db8:1:0:2:3:0:4'') \<and>
   (0x0db8 :: u16) \<noteq> 0 \<and> hex16 0x0db8 = ''db8'' \<and> digits_val 16 ''db8'' = 0x0db8"
proof -
  let ?a = "[0x20, 0x01, 0x0d, 0xb8, 0, 1, 0, 0, 0, 2, 0, 3, 0, 0, 0, 4 :: u8]"
  have b: "40 \<le> length (replicate 40 CHR ''x'')" "(40 :: u32) \<le> 40" by simp_all
  have h: "length ?a = 16" "no_zero_run (hextets ?a)"
    by (simp, code_simp)
  have c: "join_colon (map hex16 (hextets ?a)) = ''2001:db8:1:0:2:3:0:4''"
    by (simp add: hextets_bytes hex_str.simps digit_char_def)
  have d: "(0x0db8 :: u16) \<noteq> 0" "hex16 0x0db8 = ''db8''"
    by (simp_all add: hex_str.simps digit_char_def)
  note t = ip6_2a_no_compression [OF b, of ?a]
  from t h have "ip6_2a ?a (replicate 40 CHR ''x'') 40 =
          Inr (stored (replicate 40 CHR ''x'') (join_colon (map hex16 (hextets ?a))))"
    by blast
  moreover from t have "digits_val 16 (hex16 0x0db8) = unat (0x0db8 :: u16)"
    by blast
  ultimately show ?thesis using b h d unfolding c by simp
qed

text \<open>
  C6: for every address of 16 bytes the text has at most one position where two
  colons follow each other, so at most one \<^verbatim>\<open>::\<close>, and nowhere three colons in
  a row, however many zero runs the address has.
\<close>

theorem ip6_2a_one_double_colon:
  assumes "length a = 16" and "40 \<le> length buf" and "40 \<le> buf_len"
  shows "\<exists>t. ip6_2a a buf buf_len = Inr (stored buf t) \<and> c_str (stored buf t) = t \<and>
             count_dcolon t \<le> 1 \<and> (\<forall>p q. t \<noteq> p @ '':::'' @ q)"
proof -
  let ?t = "ip6_text (hextets a)"
  from assms(1) have a: "16 \<le> length a" by simp
  have "?t \<noteq> p @ '':::'' @ q" for p q
    using ip6_text_count [of "hextets a"] count_dcolon_triple [of p q] by auto
  with ip6_2a_c_str [OF a assms(2,3)] ip6_text_count [of "hextets a"]
  show ?thesis by blast
qed

theorem ip6_2a_one_double_colon_witness:
  "length [0, 0, 0, 0, 0, 1, 0, 0, 0, 0, 0, 0, 0, 1, 0, 0 :: u8] = 16 \<and>
   40 \<le> length (replicate 40 CHR ''x'') \<and> (40 :: u32) \<le> 40 \<and>
   zero_run (hextets [0, 0, 0, 0, 0, 1, 0, 0, 0, 0, 0, 0, 0, 1, 0, 0]) 0 2 \<and>
   zero_run (hextets [0, 0, 0, 0, 0, 1, 0, 0, 0, 0, 0, 0, 0, 1, 0, 0]) 3 3 \<and>
   (\<exists>t. ip6_2a [0, 0, 0, 0, 0, 1, 0, 0, 0, 0, 0, 0, 0, 1, 0, 0] (replicate 40 CHR ''x'') 40 =
          Inr (stored (replicate 40 CHR ''x'') t) \<and> count_dcolon t \<le> 1) \<and>
   ip6_2a [0, 0, 0, 0, 0, 1, 0, 0, 0, 0, 0, 0, 0, 1, 0, 0] (replicate 40 CHR ''x'') 40 =
     Inr (''0:0:1::1:0'' @ NUL # replicate 29 CHR ''x'')"
proof -
  let ?a = "[0, 0, 0, 0, 0, 1, 0, 0, 0, 0, 0, 0, 0, 1, 0, 0 :: u8]"
  let ?b = "replicate 40 CHR ''x''"
  have h: "length ?a = 16" "40 \<le> length ?b" "(40 :: u32) \<le> 40" by simp_all
  have z: "zero_run (hextets ?a) 0 2" "zero_run (hextets ?a) 3 3" by code_simp+
  have e: "ip6_2a ?a ?b 40 = Inr (''0:0:1::1:0'' @ NUL # replicate 29 CHR ''x'')"
    using ip6_2a_c_str(1) [of ?a ?b 40]
    by (simp add: hextets_bytes ip6_eval stored_def)
  from ip6_2a_one_double_colon [OF h]
  have "\<exists>t. ip6_2a ?a ?b 40 = Inr (stored ?b t) \<and> count_dcolon t \<le> 1" by blast
  with h z e show ?thesis by blast
qed

text \<open>
  C7: the formatter is total. For every address of 16 bytes and every buffer of at
  least 40 characters it returns (the model has no fault), and leaves a text of at
  most 39 characters, all of them hexadecimal digits or colons and so ASCII, followed
  by the null character; the buffer keeps its length and nothing from index 40 on is
  changed. That the function terminates is part of its definition: each of its loops
  is a function with a termination proof.
\<close>

theorem ip6_2a_total:
  assumes "length a = 16" and "40 \<le> length buf" and "40 \<le> buf_len"
  shows "\<exists>t. ip6_2a a buf buf_len = Inr (stored buf t) \<and>
             length t \<le> 39 \<and> set t \<subseteq> set ''0123456789abcdef:'' \<and>
             (\<forall>c \<in> set t. (of_char c :: nat) < 128) \<and>
             c_str (stored buf t) = t \<and> stored buf t ! length t = NUL \<and>
             length (stored buf t) = length buf \<and> drop 40 (stored buf t) = drop 40 buf"
proof -
  let ?t = "ip6_text (hextets a)"
  from assms(1) have a: "16 \<le> length a" by simp
  have l: "length ?t \<le> 39" by (rule ip6_text_length [OF hextets_length])
  then have lt: "length ?t < length buf" using assms(2) by simp
  have cs: "set ?t \<subseteq> set ''0123456789abcdef:''"
    unfolding text_chars_eq by (rule ip6_text_chars)
  have "\<forall>c \<in> set ''0123456789abcdef:''. (of_char c :: nat) < 128" by simp
  with cs have ascii: "\<forall>c \<in> set ?t. (of_char c :: nat) < 128" by blast
  have "drop 40 (stored buf ?t) = drop (40 - Suc (length ?t)) (drop (Suc (length ?t)) (stored buf ?t))"
    using l by simp
  also have "\<dots> = drop (40 - Suc (length ?t)) (drop (Suc (length ?t)) buf)"
    unfolding stored_props(4) [OF lt] ..
  also have "\<dots> = drop 40 buf" using l by simp
  finally have d: "drop 40 (stored buf ?t) = drop 40 buf" .
  from ip6_2a_c_str [OF a assms(2,3)] l cs ascii stored_props(1,2) [OF lt] d
  show ?thesis by blast
qed

theorem ip6_2a_total_witness:
  "length [0xff, 0xff, 0xff, 0xff, 0xff, 0xff, 0xff, 0xff,
           0xff, 0xff, 0xff, 0xff, 0xff, 0xff, 0xff, 0xff :: u8] = 16 \<and>
   40 \<le> length (replicate 40 CHR ''x'') \<and> (40 :: u32) \<le> 40 \<and>
   (\<exists>t. ip6_2a [0xff, 0xff, 0xff, 0xff, 0xff, 0xff, 0xff, 0xff,
                 0xff, 0xff, 0xff, 0xff, 0xff, 0xff, 0xff, 0xff] (replicate 40 CHR ''x'') 40 =
          Inr (stored (replicate 40 CHR ''x'') t) \<and> length t \<le> 39 \<and>
          length (stored (replicate 40 CHR ''x'') t) = 40) \<and>
   ip6_2a [0xff, 0xff, 0xff, 0xff, 0xff, 0xff, 0xff, 0xff,
           0xff, 0xff, 0xff, 0xff, 0xff, 0xff, 0xff, 0xff] (replicate 40 CHR ''x'') 40 =
     Inr (''ffff:ffff:ffff:ffff:ffff:ffff:ffff:ffff'' @ [NUL])"
proof -
  let ?a = "[0xff, 0xff, 0xff, 0xff, 0xff, 0xff, 0xff, 0xff,
             0xff, 0xff, 0xff, 0xff, 0xff, 0xff, 0xff, 0xff :: u8]"
  let ?b = "replicate 40 CHR ''x''"
  have h: "length ?a = 16" "40 \<le> length ?b" "(40 :: u32) \<le> 40" by simp_all
  have e: "ip6_2a ?a ?b 40 = Inr (''ffff:ffff:ffff:ffff:ffff:ffff:ffff:ffff'' @ [NUL])"
    using ip6_2a_c_str(1) [of ?a ?b 40]
    by (simp add: ip6_text_ex_ff stored_def)
  from ip6_2a_total [OF h]
  have "\<exists>t. ip6_2a ?a ?b 40 = Inr (stored ?b t) \<and> length t \<le> 39 \<and>
          length (stored ?b t) = length ?b" by blast
  then have "\<exists>t. ip6_2a ?a ?b 40 = Inr (stored ?b t) \<and> length t \<le> 39 \<and>
          length (stored ?b t) = 40" by simp
  with h e show ?thesis by blast
qed

text \<open>
  C8, as amended: the formatters take the address as a pointer, without a length, and
  have no error to raise. When the address has fewer than 16 bytes (4 for
  \<^verbatim>\<open>ip4_2a\<close>) and \<open>buf_len\<close> passes the capacity test, the function reads
  past the end of the address. With at least 16 (4) bytes, and a buffer of the
  announced capacity, it returns and has read the first 16 (4) bytes only.
\<close>

theorem ip_2a_short_address:
  "(length ip6_addr < 16 \<and> 40 \<le> buf_len \<longrightarrow>
      ip6_2a ip6_addr buf buf_len = Inl Read_Past_End) \<and>
   (length ip4_addr < 4 \<and> 16 \<le> buf_len \<longrightarrow>
      ip4_2a ip4_addr buf buf_len = Inl Read_Past_End) \<and>
   (16 \<le> length ip6_addr \<and> 40 \<le> length buf \<and> 40 \<le> buf_len \<longrightarrow>
      (\<exists>buf'. ip6_2a ip6_addr buf buf_len = Inr buf') \<and>
      ip6_2a ip6_addr buf buf_len = ip6_2a (take 16 ip6_addr) buf buf_len) \<and>
   (4 \<le> length ip4_addr \<and> 16 \<le> length buf \<and> 16 \<le> buf_len \<longrightarrow>
      (\<exists>buf'. ip4_2a ip4_addr buf buf_len = Inr buf') \<and>
      ip4_2a ip4_addr buf buf_len = ip4_2a (take 4 ip4_addr) buf buf_len)"
proof (intro conjI impI)
  assume "length ip6_addr < 16 \<and> 40 \<le> buf_len"
  then show "ip6_2a ip6_addr buf buf_len = Inl Read_Past_End"
    using ip6_2a_short by blast
next
  assume "length ip4_addr < 4 \<and> 16 \<le> buf_len"
  then show "ip4_2a ip4_addr buf buf_len = Inl Read_Past_End"
    using ip4_2a_short by blast
next
  assume h: "16 \<le> length ip6_addr \<and> 40 \<le> length buf \<and> 40 \<le> buf_len"
  then have e: "ip6_2a ip6_addr buf buf_len = Inr (stored buf (ip6_text (hextets ip6_addr)))"
    using ip6_2a_stores by blast
  then show "\<exists>buf'. ip6_2a ip6_addr buf buf_len = Inr buf'" ..
  from h have "ip6_2a (take 16 ip6_addr) buf buf_len =
                 Inr (stored buf (ip6_text (hextets (take 16 ip6_addr))))"
    by (intro ip6_2a_stores) simp_all
  with e h show "ip6_2a ip6_addr buf buf_len = ip6_2a (take 16 ip6_addr) buf buf_len"
    by (simp add: hextets_take)
next
  assume h: "4 \<le> length ip4_addr \<and> 16 \<le> length buf \<and> 16 \<le> buf_len"
  then have e: "ip4_2a ip4_addr buf buf_len = Inr (stored buf (ip4_text ip4_addr))"
    using ip4_2a_stores by blast
  then show "\<exists>buf'. ip4_2a ip4_addr buf buf_len = Inr buf'" ..
  from h have "ip4_2a (take 4 ip4_addr) buf buf_len =
                 Inr (stored buf (ip4_text (take 4 ip4_addr)))"
    by (intro ip4_2a_stores) simp_all
  with e h show "ip4_2a ip4_addr buf buf_len = ip4_2a (take 4 ip4_addr) buf buf_len"
    by (simp add: ip4_text_take)
qed

theorem ip_2a_short_address_witness:
  "length [0x20, 0x01, 0x0d, 0xb8, 0, 0, 0, 0, 0, 0, 0, 0, 0, 0, 0 :: u8] < 16 \<and>
   (40 :: u32) \<le> 40 \<and>
   ip6_2a [0x20, 0x01, 0x0d, 0xb8, 0, 0, 0, 0, 0, 0, 0, 0, 0, 0, 0]
     (replicate 40 CHR ''x'') 40 = Inl Read_Past_End \<and>
   length [192, 168, 1 :: u8] < 4 \<and> (16 :: u32) \<le> 16 \<and>
   ip4_2a [192, 168, 1] (replicate 40 CHR ''x'') 16 = Inl Read_Past_End \<and>
   16 \<le> length [0, 0, 0, 0, 0, 0, 0, 0, 0, 0, 0, 0, 0, 0, 0, 1, 0xaa, 0xbb :: u8] \<and>
   40 \<le> length (replicate 40 CHR ''x'') \<and>
   ip6_2a [0, 0, 0, 0, 0, 0, 0, 0, 0, 0, 0, 0, 0, 0, 0, 1, 0xaa, 0xbb]
     (replicate 40 CHR ''x'') 40 =
   ip6_2a [0, 0, 0, 0, 0, 0, 0, 0, 0, 0, 0, 0, 0, 0, 0, 1] (replicate 40 CHR ''x'') 40 \<and>
   4 \<le> length [192, 168, 1, 1, 0xaa :: u8] \<and> 16 \<le> length (replicate 40 CHR ''x'') \<and>
   ip4_2a [192, 168, 1, 1, 0xaa] (replicate 40 CHR ''x'') 16 =
   ip4_2a [192, 168, 1, 1] (replicate 40 CHR ''x'') 16"
proof -
  let ?s6 = "[0x20, 0x01, 0x0d, 0xb8, 0, 0, 0, 0, 0, 0, 0, 0, 0, 0, 0 :: u8]"
  let ?s4 = "[192, 168, 1 :: u8]"
  let ?l6 = "[0, 0, 0, 0, 0, 0, 0, 0, 0, 0, 0, 0, 0, 0, 0, 1, 0xaa, 0xbb :: u8]"
  let ?l4 = "[192, 168, 1, 1, 0xaa :: u8]"
  let ?b = "replicate 40 CHR ''x''"
  have h: "length ?s6 < 16" "(40 :: u32) \<le> 40" "length ?s4 < 4" "(16 :: u32) \<le> 16"
    "16 \<le> length ?l6" "40 \<le> length ?b" "4 \<le> length ?l4" "16 \<le> length ?b"
    by simp_all
  from ip_2a_short_address [of ?s6 40 ?b ?s4] h
  have 1: "ip6_2a ?s6 ?b 40 = Inl Read_Past_End" by blast
  from ip_2a_short_address [of ?s6 16 ?b ?s4] h
  have 2: "ip4_2a ?s4 ?b 16 = Inl Read_Past_End" by blast
  from ip_2a_short_address [of ?l6 40 ?b ?l4] h
  have "ip6_2a ?l6 ?b 40 = ip6_2a (take 16 ?l6) ?b 40" by blast
  then have 3: "ip6_2a ?l6 ?b 40 =
      ip6_2a [0, 0, 0, 0, 0, 0, 0, 0, 0, 0, 0, 0, 0, 0, 0, 1] ?b 40" by simp
  from ip_2a_short_address [of ?l6 16 ?b ?l4] h
  have "ip4_2a ?l4 ?b 16 = ip4_2a (take 4 ?l4) ?b 16" by blast
  then have 4: "ip4_2a ?l4 ?b 16 = ip4_2a [192, 168, 1, 1] ?b 16" by simp
  from h 1 2 3 4 show ?thesis by blast
qed

text \<open>
  C8 as the specification states it fails: on an address of 15 bytes \<^verbatim>\<open>ip6_2a\<close>
  does not stop with an error of its own, it reads \<^verbatim>\<open>ip6_addr[15]\<close>.
\<close>

theorem ip6_2a_short_address_counterexample:
  "ip6_2a [0, 0, 0, 0, 0, 0, 0, 0, 0, 0, 0, 0, 0, 0, 0] (replicate 40 CHR ''x'') 40 =
     Inl Read_Past_End"
  by (simp add: ip6_2a_def read_hextets.simps peek_def)

text \<open>
  C9: the IPv4 formatter renders the four bytes in order, each in decimal, separated
  by single dots. Every number is rendered in the digits \<^verbatim>\<open>0123456789\<close>, with at
  least one digit, without a leading zero unless it is 0, and the digits read in base
  10 give its value. In particular 192, 168, 1, 1 is formatted as
  \<^verbatim>\<open>192.168.1.1\<close>.
\<close>

theorem ip4_2a_dotted_decimal:
  assumes "16 \<le> length buf" and "16 \<le> buf_len"
  shows "(length a = 4 \<longrightarrow>
            ip4_2a a buf buf_len =
              Inr (stored buf (dec_str (unat (a ! 0)) @ ''.'' @ dec_str (unat (a ! 1)) @ ''.'' @
                               dec_str (unat (a ! 2)) @ ''.'' @ dec_str (unat (a ! 3))))) \<and>
         (\<forall>n. set (dec_str n) \<subseteq> set ''0123456789'' \<and> dec_str n \<noteq> [] \<and>
              (n \<noteq> 0 \<longrightarrow> hd (dec_str n) \<noteq> CHR ''0'') \<and> digits_val 10 (dec_str n) = n) \<and>
         ip4_2a [192, 168, 1, 1] buf buf_len = Inr (stored buf ''192.168.1.1'')"
proof (intro conjI impI allI)
  assume "length a = 4"
  then have "4 \<le> length a" by simp
  from ip4_2a_stores [OF this assms]
  show "ip4_2a a buf buf_len =
              Inr (stored buf (dec_str (unat (a ! 0)) @ ''.'' @ dec_str (unat (a ! 1)) @ ''.'' @
                               dec_str (unat (a ! 2)) @ ''.'' @ dec_str (unat (a ! 3))))"
    by (simp add: ip4_text_def)
next
  have "ip4_text [192, 168, 1, 1] = ''192.168.1.1''"
    by (simp add: ip4_text_def dec_str.simps digit_char_def)
  with ip4_2a_stores [OF _ assms, of "[192, 168, 1, 1]"]
  show "ip4_2a [192, 168, 1, 1] buf buf_len = Inr (stored buf ''192.168.1.1'')" by simp
next
  fix n
  show "set (dec_str n) \<subseteq> set ''0123456789''" by (rule dec_str_chars)
  show "dec_str n \<noteq> []" by (rule dec_str_nonempty)
  show "digits_val 10 (dec_str n) = n" by (rule dec_str_value)
  show "hd (dec_str n) \<noteq> CHR ''0''" if "n \<noteq> 0" using that by (rule dec_str_hd)
qed

theorem ip4_2a_dotted_decimal_witness:
  "16 \<le> length (replicate 16 CHR ''x'') \<and> (16 :: u32) \<le> 16 \<and>
   length [10, 0, 255, 7 :: u8] = 4 \<and>
   ip4_2a [10, 0, 255, 7] (replicate 16 CHR ''x'') 16 =
     Inr (''10.0.255.7'' @ NUL # replicate 5 CHR ''x'') \<and>
   (255 :: nat) \<noteq> 0 \<and> dec_str 255 = ''255'' \<and> digits_val 10 ''255'' = 255"
proof -
  let ?a = "[10, 0, 255, 7 :: u8]"
  let ?b = "replicate 16 CHR ''x''"
  have b: "16 \<le> length ?b" "(16 :: u32) \<le> 16" by simp_all
  have h: "length ?a = 4" by simp
  have d: "dec_str 255 = ''255''" by (simp add: dec_str.simps digit_char_def)
  note t = ip4_2a_dotted_decimal [OF b, of ?a]
  from t h have "ip4_2a ?a ?b 16 =
      Inr (stored ?b (dec_str (unat (?a ! 0)) @ ''.'' @ dec_str (unat (?a ! 1)) @ ''.'' @
                      dec_str (unat (?a ! 2)) @ ''.'' @ dec_str (unat (?a ! 3))))" by blast
  then have "ip4_2a ?a ?b 16 = Inr (''10.0.255.7'' @ NUL # replicate 5 CHR ''x'')"
    by (simp add: dec_str.simps digit_char_def stored_def)
  moreover from t have "digits_val 10 (dec_str 255) = 255" by blast
  ultimately show ?thesis using b h d by simp
qed

text \<open>
  C10: when the capacity argument is below the minimum (\<open>buf_len < 40\<close> for
  \<^verbatim>\<open>ip6_2a\<close>, \<open>buf_len < 16\<close> for \<^verbatim>\<open>ip4_2a\<close>) the function returns at
  once: the buffer is left as it was, whatever it and the address are; no null
  character is written and nothing is reported.
\<close>

theorem ip_2a_small_buf_len:
  "(buf_len < 40 \<longrightarrow> ip6_2a ip6_addr buf buf_len = Inr buf) \<and>
   (buf_len < 16 \<longrightarrow> ip4_2a ip4_addr buf buf_len = Inr buf)"
  by (simp add: ip6_2a_def ip4_2a_def)

theorem ip_2a_small_buf_len_witness:
  "(39 :: u32) < 40 \<and> (15 :: u32) < 16 \<and>
   ip6_2a [0, 0, 0, 0, 0, 0, 0, 0, 0, 0, 0, 0, 0, 0, 0, 1] ''previous text'' 39 =
     Inr ''previous text'' \<and>
   ip4_2a [192, 168, 1, 1] ''previous text'' 15 = Inr ''previous text''"
proof -
  have h: "(39 :: u32) < 40" "(15 :: u32) < 16" by simp_all
  from ip_2a_small_buf_len [of 39 "[0, 0, 0, 0, 0, 0, 0, 0, 0, 0, 0, 0, 0, 0, 0, 1]"
      "''previous text''" "[192, 168, 1, 1]"] h(1)
  have "ip6_2a [0, 0, 0, 0, 0, 0, 0, 0, 0, 0, 0, 0, 0, 0, 0, 1] ''previous text'' 39 =
     Inr ''previous text''" by blast
  moreover from ip_2a_small_buf_len [of 15 "[0, 0, 0, 0, 0, 0, 0, 0, 0, 0, 0, 0, 0, 0, 0, 1]"
      "''previous text''" "[192, 168, 1, 1]"] h(2)
  have "ip4_2a [192, 168, 1, 1] ''previous text'' 15 = Inr ''previous text''" by blast
  ultimately show ?thesis using h by blast
qed

end
